theory Spec2Isabelle
  imports Complex_Main "HOL-Library.Sublist"
begin

section \<open>JavaScript values and the built-ins the page relies on\<close>

text \<open>
  The page is a Vue single-file component. Its script keeps the fetched products, the
  search text, the sort object and the page number in refs and derives three computed
  views from them: \<open>filteredProducts\<close>, \<open>sortedFilteredProducts\<close> and
  \<open>paginatedProducts\<close>.

  A JavaScript \<open>number\<close> is modelled as a real: the values the program meets (JSON
  numbers, multiples of the page sizes) are finite, and of \<open>aVal - bVal\<close> only the sign
  is ever used, which for finite doubles is the sign of the exact difference.
  A JavaScript string is a \<open>string\<close>.
\<close>

type_synonym number = real

datatype jsval = JString string | JNumber number

text \<open>
  Three built-ins have results that depend on the Unicode tables, on the number printing
  algorithm and on the locale of the browser: \<open>String.prototype.toLowerCase\<close>,
  \<open>String(n)\<close> for a number \<open>n\<close>, and \<open>String.prototype.localeCompare\<close>.
  They are taken as parameters, collected in a record, so that every theorem below holds
  for whatever the browser computes.
\<close>

record platform =
  toLowerCase :: "string \<Rightarrow> string"
  numberToString :: "number \<Rightarrow> string"
  localeCompare :: "string \<Rightarrow> string \<Rightarrow> number"

text \<open>\<open>String(val)\<close>: a string is returned as it is, a number is printed.\<close>

fun String :: "platform \<Rightarrow> jsval \<Rightarrow> string" where
  "String env (JString s) = s"
| "String env (JNumber n) = numberToString env n"

text \<open>\<open>s.includes(t)\<close>, written \<open>includes'\<close>: \<open>t\<close> occurs in \<open>s\<close> at some position.\<close>

fun includes' :: "string \<Rightarrow> string \<Rightarrow> bool" where
  "includes' [] t = (t = [])"
| "includes' (c # s) t = (prefix t (c # s) \<or> includes' s t)"

text \<open>
  \<open>xs.slice(start, end)\<close> with integer arguments: a negative index counts from the
  end of the array, and both indices are clipped to the array.
\<close>

definition slice :: "'a list \<Rightarrow> int \<Rightarrow> int \<Rightarrow> 'a list" where
  "slice xs start end' =
     (let len = int (length xs);
          k = (if start < 0 then max (len + start) 0 else min start len);
          final = (if end' < 0 then max (len + end') 0 else min end' len)
      in take (nat (final - k)) (drop (nat k) xs))"

text \<open>
  \<open>xs.sort(comparefn)\<close>. ECMAScript requires the sort to be stable and reads only the
  sign of what the comparator returns; for a consistent comparator that fixes the result,
  which is the one stable insertion computes: each element is put in front of the first
  element of the already sorted rest that it does not exceed.
\<close>

fun insert_sorted :: "('a \<Rightarrow> 'a \<Rightarrow> number) \<Rightarrow> 'a \<Rightarrow> 'a list \<Rightarrow> 'a list" where
  "insert_sorted cmp x [] = [x]"
| "insert_sorted cmp x (y # ys) =
     (if cmp x y \<le> 0 then x # y # ys else y # insert_sorted cmp x ys)"

fun array_sort :: "('a \<Rightarrow> 'a \<Rightarrow> number) \<Rightarrow> 'a list \<Rightarrow> 'a list" where
  "array_sort cmp [] = []"
| "array_sort cmp (x # xs) = insert_sorted cmp x (array_sort cmp xs)"

text \<open>
  A consistent comparator in the sense of ECMAScript: comparing a value with itself
  gives zero, swapping the arguments swaps the sign, and \<open>\<le>\<close> is transitive.
  \<open>localeCompare\<close> is required to be one.
\<close>

definition consistent_comparator :: "('a \<Rightarrow> 'a \<Rightarrow> number) \<Rightarrow> bool" where
  "consistent_comparator cmp \<longleftrightarrow>
     (\<forall>a. cmp a a = 0) \<and>
     (\<forall>a b. (cmp a b < 0) = (0 < cmp b a)) \<and>
     (\<forall>a b c. cmp a b \<le> 0 \<and> cmp b c \<le> 0 \<longrightarrow> cmp a c \<le> 0)"

section \<open>The data model\<close>

text \<open>The interface \<open>Product\<close>; the field \<open>id\<close> is written \<open>id'\<close>.\<close>

record Product =
  id' :: number
  title :: string
  description :: string
  price :: number
  rating :: number
  brand :: string
  category :: string
  thumbnail :: string

text \<open>\<open>Object.values(product)\<close>: the values of the fields, in the order of the interface.\<close>

definition Object_values :: "Product \<Rightarrow> jsval list" where
  "Object_values product =
     [JNumber (id' product), JString (title product), JString (description product),
      JNumber (price product), JNumber (rating product), JString (brand product),
      JString (category product), JString (thumbnail product)]"

text \<open>
  \<open>a[key]\<close> for a key chosen at run time: the value of the field of that name, and
  \<open>undefined\<close> (here \<open>None\<close>) when the product has no such field.
\<close>

definition get_field :: "Product \<Rightarrow> string \<Rightarrow> jsval option" where
  "get_field a key =
     (if key = ''id'' then Some (JNumber (id' a))
      else if key = ''title'' then Some (JString (title a))
      else if key = ''description'' then Some (JString (description a))
      else if key = ''price'' then Some (JNumber (price a))
      else if key = ''rating'' then Some (JNumber (rating a))
      else if key = ''brand'' then Some (JString (brand a))
      else if key = ''category'' then Some (JString (category a))
      else if key = ''thumbnail'' then Some (JString (thumbnail a))
      else None)"

text \<open>The object held by the ref \<open>sort\<close>: \<open>{ column: 'title', direction: 'asc' }\<close>.\<close>

record sort_spec =
  column :: string
  direction :: string

subsection \<open>Arrays and objects with identity\<close>

text \<open>
  Arrays and the sort object are reached through references, and the watcher compares
  references, so they live in a store. \<open>top\<close> is the next free address; every address
  below it is allocated.
\<close>

type_synonym addr = nat

record store =
  arrays :: "addr \<Rightarrow> Product list"
  objects :: "addr \<Rightarrow> sort_spec"
  top :: addr

definition new_array :: "Product list \<Rightarrow> store \<Rightarrow> addr \<times> store" where
  "new_array xs h = (top h, h\<lparr>arrays := (arrays h)(top h := xs), top := Suc (top h)\<rparr>)"

text \<open>The array a computation returns: its contents in the store it leaves behind.\<close>

definition contents :: "addr \<times> store \<Rightarrow> Product list" where
  "contents r = arrays (snd r) (fst r)"

section \<open>The computed views\<close>

definition pageSize :: int where
  "pageSize = 10"

text \<open>The callback of \<open>products.value.filter\<close> in \<open>filteredProducts\<close>.\<close>

definition matches :: "platform \<Rightarrow> string \<Rightarrow> Product \<Rightarrow> bool" where
  "matches env search_value product =
     list_ex
       (\<lambda>val. includes' (toLowerCase env (String env val)) (toLowerCase env search_value))
       (Object_values product)"

text \<open>
  \<open>filteredProducts\<close>, as a function of the store, of \<open>search.value\<close> and of the
  reference \<open>products.value\<close>. With an empty search text it returns the very array of
  the products; otherwise \<open>filter\<close> builds a new array.
\<close>

definition filteredProducts :: "platform \<Rightarrow> store \<Rightarrow> string \<Rightarrow> addr \<Rightarrow> addr \<times> store" where
  "filteredProducts env h search_value products_value =
     (if search_value = [] then (products_value, h)
      else new_array (filter (matches env search_value) (arrays h products_value)) h)"

text \<open>
  The comparator passed to \<open>items.sort\<close> in \<open>sortedFilteredProducts\<close>; \<open>col\<close> and
  \<open>dir\<close> are the \<open>column\<close> and \<open>direction\<close> read from the sort object.
\<close>

definition compare :: "platform \<Rightarrow> string \<Rightarrow> string \<Rightarrow> Product \<Rightarrow> Product \<Rightarrow> number" where
  "compare env col dir a b =
     (case (get_field a col, get_field b col) of
        (Some (JString aVal), Some (JString bVal)) \<Rightarrow>
          (if dir = ''asc'' then localeCompare env aVal bVal
           else localeCompare env bVal aVal)
      | (Some (JNumber aVal), Some (JNumber bVal)) \<Rightarrow>
          (if dir = ''asc'' then aVal - bVal else bVal - aVal)
      | _ \<Rightarrow> 0)"

text \<open>
  \<open>sortedFilteredProducts\<close>, as a function of the store, of the sort object and of the
  reference \<open>filteredProducts.value\<close>: \<open>slice()\<close> copies the filtered array into a new
  one, and \<open>sort\<close> then reorders that copy in place.
\<close>

definition sortedFilteredProducts ::
  "platform \<Rightarrow> store \<Rightarrow> sort_spec \<Rightarrow> addr \<Rightarrow> addr \<times> store" where
  "sortedFilteredProducts env h spec filtered_value =
     (let (items, h1) = new_array (arrays h filtered_value) h
      in if column spec = [] \<or> direction spec = [] then (items, h1)
         else (items,
               h1\<lparr>arrays := (arrays h1)
                    (items := array_sort (compare env (column spec) (direction spec))
                                (arrays h1 items))\<rparr>))"

text \<open>
  \<open>paginatedProducts\<close>, as a function of the store, of \<open>page.value\<close> and of the
  reference \<open>sortedFilteredProducts.value\<close>.
\<close>

definition paginatedProducts :: "store \<Rightarrow> int \<Rightarrow> addr \<Rightarrow> addr \<times> store" where
  "paginatedProducts h page_value sorted_value =
     (let start = (page_value - 1) * pageSize
      in new_array (slice (arrays h sorted_value) start (start + pageSize)) h)"

section \<open>The state of the page\<close>

text \<open>
  The refs of the script. \<open>products\<close> and \<open>sort'\<close> (the ref \<open>sort\<close>) hold references
  into the store. \<open>filteredProducts_value\<close> is the cached value of the computed
  \<open>filteredProducts\<close>, the only computed whose identity is observed, and \<open>watched\<close>
  holds the two source values the watcher saw last. \<open>requests\<close> and \<open>console\<close> record
  what the page has sent to the network and to \<open>console.error\<close>.
\<close>

record request =
  limit :: number
  skip :: "number option"

datatype fetch_error = FetchError | TypeError

record app =
  heap :: store
  products :: addr
  loading :: bool
  search :: string
  page :: int
  sort' :: addr
  filteredProducts_value :: addr
  watched :: "addr \<times> addr"
  requests :: "request list"
  console :: "fetch_error list"

text \<open>
  The state after the script has run: \<open>ref([])\<close>, \<open>ref(false)\<close>, \<open>ref('')\<close>,
  \<open>ref(1)\<close> and the sort object. The empty search text makes \<open>filteredProducts\<close> the array
  of the products itself.
\<close>

definition initial :: app where
  "initial =
     \<lparr>heap = \<lparr>arrays = (\<lambda>_. []),
              objects = (\<lambda>_. \<lparr>column = ''title'', direction = ''asc''\<rparr>),
              top = 2\<rparr>,
      products = 0, loading = False, search = [], page = 1, sort' = 1,
      filteredProducts_value = 0, watched = (0, 1), requests = [], console = []\<rparr>"

section \<open>Fetching all products\<close>

text \<open>
  The body of a response of the catalogue: \<open>{ total, products }\<close>, either of which may be
  missing. \<open>$fetch\<close> either throws or returns the parsed body, which may be \<open>null\<close>.
  The requests of one run are pairwise different, so the network is a function of the
  request.
\<close>

record response =
  total' :: "number option"
  res_products :: "Product list option"

type_synonym network = "request \<Rightarrow> fetch_error + response option"

definition fetch_limit :: number where
  "fetch_limit = 30"

text \<open>\<open>if (res?.products) result.push(...res.products)\<close>: the array \<open>result\<close> grows in place.\<close>

definition push_products :: "addr \<Rightarrow> response option \<Rightarrow> app \<Rightarrow> app" where
  "push_products result res st =
     (case res of
        None \<Rightarrow> st
      | Some r \<Rightarrow>
          (case res_products r of
             None \<Rightarrow> st
           | Some ps \<Rightarrow>
               st\<lparr>heap := (heap st)\<lparr>arrays :=
                     (arrays (heap st))(result := arrays (heap st) result @ ps)\<rparr>\<rparr>))"

text \<open>
  The \<open>for\<close> loop, from the current \<open>skip\<close> on. The result is the exception that ended
  the loop, if any, and the state reached.
\<close>

function fetch_pages :: "network \<Rightarrow> number \<Rightarrow> addr \<Rightarrow> number \<Rightarrow> app \<Rightarrow> fetch_error option \<times> app" where
  "fetch_pages net tot result skp st =
     (if skp < tot then
        (let req = \<lparr>limit = fetch_limit, skip = Some skp\<rparr>;
             st1 = st\<lparr>requests := requests st @ [req]\<rparr>
         in case net req of
              Inl err \<Rightarrow> (Some err, st1)
            | Inr res \<Rightarrow>
                fetch_pages net tot result (skp + fetch_limit) (push_products result res st1))
      else (None, st))"
  by pat_completeness auto
termination
proof (relation "measure (\<lambda>(net, tot, result, skp, st). nat \<lceil>tot - skp\<rceil>)")
  show "wf (measure (\<lambda>(net, tot, result, skp, st). nat \<lceil>tot - skp\<rceil>))"
    by simp
next
  fix net :: network and tot skp :: number and result :: addr and st st1 :: app
    and req :: request and res :: "response option"
  assume "skp < tot"
  then have "0 < \<lceil>tot - skp\<rceil>" by simp
  moreover have "tot - (skp + fetch_limit) = (tot - skp) - 30"
    by (simp add: fetch_limit_def)
  then have "\<lceil>tot - (skp + fetch_limit)\<rceil> = \<lceil>tot - skp\<rceil> - 30"
    by (simp only: ceiling_diff_numeral)
  ultimately show "((net, tot, result, skp + fetch_limit, push_products result res st1),
                    (net, tot, result, skp, st)) \<in>
                   measure (\<lambda>(net, tot, result, skp, st). nat \<lceil>tot - skp\<rceil>)"
    by simp
qed

declare fetch_pages.simps [simp del]

text \<open>The body of the \<open>try\<close> block.\<close>

definition fetch_all :: "network \<Rightarrow> app \<Rightarrow> fetch_error option \<times> app" where
  "fetch_all net st =
     (let st1 = st\<lparr>loading := True\<rparr>;
          probe = \<lparr>limit = 1, skip = None\<rparr>;
          st2 = st1\<lparr>requests := requests st1 @ [probe]\<rparr>
      in case net probe of
           Inl err \<Rightarrow> (Some err, st2)
         | Inr None \<Rightarrow> (Some TypeError, st2)
         | Inr (Some init) \<Rightarrow>
             (let tot = (case total' init of
                             None \<Rightarrow> 100
                           | Some t \<Rightarrow> if t = 0 then 100 else t);
                  (result, h) = new_array [] (heap st2);
                  (exc, st3) = fetch_pages net tot result 0 (st2\<lparr>heap := h\<rparr>)
              in case exc of
                   Some err \<Rightarrow> (Some err, st3)
                 | None \<Rightarrow> (None, st3\<lparr>products := result\<rparr>)))"

text \<open>
  \<open>try { body } catch (err) { handler } finally { final }\<close>: the handler runs on the
  state in which the body threw, the final block runs in every case, and an exception of
  the handler or of the final block is the one that leaves the statement.
\<close>

definition try_catch_finally ::
  "(app \<Rightarrow> fetch_error option \<times> app) \<Rightarrow> (fetch_error \<Rightarrow> app \<Rightarrow> fetch_error option \<times> app) \<Rightarrow>
   (app \<Rightarrow> fetch_error option \<times> app) \<Rightarrow> app \<Rightarrow> fetch_error option \<times> app" where
  "try_catch_finally body handler final st =
     (let (exc1, st1) = body st;
          (exc2, st2) = (case exc1 of None \<Rightarrow> (None, st1) | Some err \<Rightarrow> handler err st1);
          (exc3, st3) = final st2
      in (case exc3 of Some err \<Rightarrow> Some err | None \<Rightarrow> exc2, st3))"

definition console_error :: "fetch_error \<Rightarrow> app \<Rightarrow> fetch_error option \<times> app" where
  "console_error err st = (None, st\<lparr>console := console st @ [err]\<rparr>)"

text \<open>
  The function given to \<open>onMounted\<close>. The first component of the result is the exception
  that leaves it, if any.
\<close>

definition onMounted :: "network \<Rightarrow> app \<Rightarrow> fetch_error option \<times> app" where
  "onMounted net =
     try_catch_finally (fetch_all net) console_error (\<lambda>st. (None, st\<lparr>loading := False\<rparr>))"

section \<open>Handlers and the watcher\<close>

definition toggleSortDirection :: "app \<Rightarrow> app" where
  "toggleSortDirection st =
     (let h = heap st; obj = objects h (sort' st)
      in st\<lparr>heap := h\<lparr>objects := (objects h)
               (sort' st := obj\<lparr>direction :=
                  (if direction obj = ''asc'' then ''desc'' else ''asc'')\<rparr>)\<rparr>\<rparr>)"

text \<open>
  The three \<open>v-model\<close> bindings: \<open>search.value = text\<close>, \<open>sort.value.column = name\<close>
  (a write into the sort object) and \<open>page.value = n\<close>.
\<close>

definition input_search :: "string \<Rightarrow> app \<Rightarrow> app" where
  "input_search text st = st\<lparr>search := text\<rparr>"

definition select_column :: "string \<Rightarrow> app \<Rightarrow> app" where
  "select_column name st =
     (let h = heap st
      in st\<lparr>heap := h\<lparr>objects := (objects h)
               (sort' st := (objects h (sort' st))\<lparr>column := name\<rparr>)\<rparr>\<rparr>)"

definition select_page :: "int \<Rightarrow> app \<Rightarrow> app" where
  "select_page n st = st\<lparr>page := n\<rparr>"

text \<open>
  Vue's change propagation after a handler has run. A ref notifies its dependants when
  it is assigned a value different from the one it held; a computed is evaluated again
  only when a ref it has read has notified it, and otherwise keeps its cached value.
  \<open>filteredProducts\<close> reads \<open>search.value\<close> and \<open>products.value\<close>.
\<close>

definition recompute :: "platform \<Rightarrow> app \<Rightarrow> app \<Rightarrow> app" where
  "recompute env before st =
     (if search st \<noteq> search before \<or> products st \<noteq> products before then
        (let (a, h) = filteredProducts env (heap st) (search st) (products st)
         in st\<lparr>heap := h, filteredProducts_value := a\<rparr>)
      else st)"

text \<open>
  \<open>watch([filteredProducts, sort], () => { page.value = 1 })\<close>. For a ref in the source
  list the watcher reads \<open>.value\<close> and nothing below it (no \<open>deep\<close> option is given), and
  it runs the callback when one of the values read differs, as a reference, from the one
  it saw last.
\<close>

definition watch :: "app \<Rightarrow> app" where
  "watch st =
     (let new = (filteredProducts_value st, sort' st)
      in if fst new \<noteq> fst (watched st) \<or> snd new \<noteq> snd (watched st)
         then st\<lparr>page := 1, watched := new\<rparr>
         else st)"

text \<open>One event of the page: the handler runs, then the changes propagate.\<close>

definition update :: "platform \<Rightarrow> (app \<Rightarrow> app) \<Rightarrow> app \<Rightarrow> app" where
  "update env handler st = watch (recompute env st (handler st))"

definition mounted :: "platform \<Rightarrow> network \<Rightarrow> app \<Rightarrow> app" where
  "mounted env net = update env (\<lambda>st. snd (onMounted net st))"

text \<open>What the table shows: the sorted view of the cached filtered view, and its page.\<close>

definition sorted_view :: "platform \<Rightarrow> app \<Rightarrow> addr \<times> store" where
  "sorted_view env st =
     sortedFilteredProducts env (heap st) (objects (heap st) (sort' st))
       (filteredProducts_value st)"

definition rows :: "platform \<Rightarrow> app \<Rightarrow> Product list" where
  "rows env st =
     (let (sorted_value, h) = sorted_view env st
      in contents (paginatedProducts h (page st) sorted_value))"

section \<open>Vocabulary of the properties\<close>

text \<open>
  The request for the page number \<open>k\<close> (counted from 0) and the records that the answer
  to it contributes: those of its \<open>products\<close> field, and none when the body is \<open>null\<close>
  or has no such field.
\<close>

definition probe_request :: request where
  "probe_request = \<lparr>limit = 1, skip = None\<rparr>"

definition page_request :: "nat \<Rightarrow> request" where
  "page_request k = \<lparr>limit = fetch_limit, skip = Some (fetch_limit * real k)\<rparr>"

definition page_records :: "network \<Rightarrow> nat \<Rightarrow> Product list" where
  "page_records net k =
     (case net (page_request k) of
        Inr (Some r) \<Rightarrow> (case res_products r of Some ps \<Rightarrow> ps | None \<Rightarrow> [])
      | _ \<Rightarrow> [])"

definition succeeds :: "network \<Rightarrow> request \<Rightarrow> bool" where
  "succeeds net req = (case net req of Inr _ \<Rightarrow> True | Inl _ \<Rightarrow> False)"

text \<open>The requests that one run of \<open>onMounted\<close> sends.\<close>

definition issued :: "network \<Rightarrow> app \<Rightarrow> request list" where
  "issued net st = drop (length (requests st)) (requests (snd (onMounted net st)))"

text \<open>
  The states in which the watcher has seen the current sources and the cached
  \<open>filteredProducts\<close> is what its getter returned: the array of the products when the
  search text is empty, and an array of its own otherwise.
\<close>

definition settled :: "app \<Rightarrow> bool" where
  "settled st \<longleftrightarrow>
     watched st = (filteredProducts_value st, sort' st) \<and>
     products st < top (heap st) \<and>
     filteredProducts_value st < top (heap st) \<and>
     (search st = [] \<longrightarrow> filteredProducts_value st = products st) \<and>
     (search st \<noteq> [] \<longrightarrow> filteredProducts_value st \<noteq> products st)"

subsection \<open>An example platform and example data\<close>

text \<open>
  A platform on which the definitions can be evaluated: lower case of the ASCII letters,
  decimal printing of the integer part of a number, and comparison of strings by code
  units. On the inputs of the examples (ASCII strings, of which only lower-case ones are
  compared, and small non-negative integers) it computes what a browser computes.
\<close>

definition lower_char :: "char \<Rightarrow> char" where
  "lower_char c =
     (case map_of (zip ''ABCDEFGHIJKLMNOPQRSTUVWXYZ'' ''abcdefghijklmnopqrstuvwxyz'') c of
        Some d \<Rightarrow> d
      | None \<Rightarrow> c)"

fun decimal :: "nat \<Rightarrow> string" where
  "decimal n =
     (if n < 10 then [''0123456789'' ! n]
      else decimal (n div 10) @ [''0123456789'' ! (n mod 10)])"

declare decimal.simps [simp del]

fun code_unit_compare :: "string \<Rightarrow> string \<Rightarrow> number" where
  "code_unit_compare [] [] = 0"
| "code_unit_compare [] (y # ys) = - 1"
| "code_unit_compare (x # xs) [] = 1"
| "code_unit_compare (x # xs) (y # ys) =
     (if (of_char x :: nat) < of_char y then - 1
      else if (of_char y :: nat) < of_char x then 1
      else code_unit_compare xs ys)"

definition example_platform :: platform where
  "example_platform =
     \<lparr>toLowerCase = map lower_char,
      numberToString = (\<lambda>n. decimal (nat \<lfloor>n\<rfloor>)),
      localeCompare = code_unit_compare\<rparr>"

definition item :: "nat \<Rightarrow> string \<Rightarrow> number \<Rightarrow> Product" where
  "item n name cost =
     \<lparr>id' = real n, title = name, description = ''fruit'', price = cost, rating = 4,
      brand = ''acme'', category = ''food'', thumbnail = ''t.png''\<rparr>"

text \<open>A store that holds one array, at address 0.\<close>

definition store_of :: "Product list \<Rightarrow> store" where
  "store_of xs =
     \<lparr>arrays = (\<lambda>a. if a = 0 then xs else []),
      objects = (\<lambda>_. \<lparr>column = ''title'', direction = ''asc''\<rparr>),
      top = 1\<rparr>"

definition twelve :: "Product list" where
  "twelve = map (\<lambda>n. item n ''pear'' 2) [0..<12]"

definition fruits :: "Product list" where
  "fruits = [item 1 ''pear'' 5, item 2 ''apple'' 7, item 3 ''fig'' 5]"

text \<open>
  Three example networks. The first reports 45 products and answers every request; the
  second does the same but fails on the request with \<open>skip=30\<close>; the third is an empty
  catalogue, which reports a total of 0.
\<close>

definition catalogue_network :: network where
  "catalogue_network req =
     (if skip req = Some 30
      then Inr (Some \<lparr>total' = Some 45, res_products = Some [item 3 ''fig'' 5]\<rparr>)
      else Inr (Some \<lparr>total' = Some 45,
                       res_products = Some [item 1 ''pear'' 5, item 2 ''apple'' 7]\<rparr>))"

definition flaky_network :: network where
  "flaky_network req =
     (if skip req = Some 30 then Inl FetchError
      else Inr (Some \<lparr>total' = Some 45,
                       res_products = Some [item 1 ''pear'' 5, item 2 ''apple'' 7]\<rparr>))"

definition empty_catalogue_network :: network where
  "empty_catalogue_network req = Inr (Some \<lparr>total' = Some 0, res_products = Some []\<rparr>)"

text \<open>A catalogue of twelve products that is delivered in one page.\<close>

definition stock :: "Product list" where
  "stock = map (\<lambda>n. item n ''pear'' (real n)) [0..<12]"

definition shop_network :: network where
  "shop_network req = Inr (Some \<lparr>total' = Some 12, res_products = Some stock\<rparr>)"

text \<open>
  A platform whose comparison of strings ignores the soft hyphen (U+00AD), as the
  collation of the browsers does, and two products whose titles differ in a soft hyphen
  only.
\<close>

definition strip_soft_hyphens :: "string \<Rightarrow> string" where
  "strip_soft_hyphens s = filter (\<lambda>c. c \<noteq> CHR 0xAD) s"

definition soft_hyphen_platform :: platform where
  "soft_hyphen_platform =
     example_platform\<lparr>localeCompare :=
       (\<lambda>s t. code_unit_compare (strip_soft_hyphens s) (strip_soft_hyphens t))\<rparr>"

definition hyphenated :: "Product list" where
  "hyphenated = [item 1 ''ab'' 5, item 2 [CHR ''a'', CHR 0xAD, CHR ''b''] 7]"

section \<open>The search filter\<close>

lemma includes'_sublist: "includes' s t \<longleftrightarrow> sublist t s"
  by (induction s) (simp_all add: sublist_Cons_right)

lemma contents_new_array: "contents (new_array xs h) = xs"
  by (simp add: contents_def new_array_def)

lemma matches_eq:
  "matches env q =
     (\<lambda>p. \<exists>val \<in> set (Object_values p).
        sublist (toLowerCase env q) (toLowerCase env (String env val)))"
  by (rule ext) (simp add: matches_def list_ex_iff includes'_sublist)

text \<open>
  Claim C1. For a non-empty search text, a product is in the filtered array exactly when
  it is in the array of the products and the lower-case search text occurs in the
  lower-case string form of one of its field values; the filtered array is a subsequence
  of the array of the products, namely all such products in their order.
\<close>

theorem filteredProducts_matching:
  assumes "search_value \<noteq> []"
  shows "(\<forall>p. p \<in> set (contents (filteredProducts env h search_value products_value)) \<longleftrightarrow>
            p \<in> set (arrays h products_value) \<and>
            (\<exists>val \<in> set (Object_values p).
               sublist (toLowerCase env search_value) (toLowerCase env (String env val)))) \<and>
         subseq (contents (filteredProducts env h search_value products_value))
           (arrays h products_value) \<and>
         contents (filteredProducts env h search_value products_value) =
           filter (\<lambda>p. \<exists>val \<in> set (Object_values p).
                     sublist (toLowerCase env search_value) (toLowerCase env (String env val)))
             (arrays h products_value)"
  using assms by (simp add: filteredProducts_def contents_new_array matches_eq)

theorem filteredProducts_matching_witness:
  "''APP'' \<noteq> [] \<and>
   contents (filteredProducts example_platform
      (store_of [item 1 ''Apple'' 3, item 2 ''Banana'' 5, item 3 ''Pineapple'' 7]) ''APP'' 0) =
     [item 1 ''Apple'' 3, item 3 ''Pineapple'' 7]"
proof -
  have q: "''APP'' \<noteq> []" by simp
  show ?thesis
    using q filteredProducts_matching [OF q, of example_platform
      "store_of [item 1 ''Apple'' 3, item 2 ''Banana'' 5, item 3 ''Pineapple'' 7]" 0]
    by (simp add: includes'_sublist [symmetric] Object_values_def
      example_platform_def lower_char_def decimal.simps item_def store_of_def)
qed

text \<open>
  Claim C8. With the empty search text \<open>filteredProducts\<close> is the array of the products
  itself: the same reference, in an unchanged store, hence the same records in the same
  order.
\<close>

theorem filteredProducts_empty_query:
  "filteredProducts env h [] products_value = (products_value, h) \<and>
   contents (filteredProducts env h [] products_value) = arrays h products_value"
  by (simp add: filteredProducts_def contents_def)

section \<open>Pagination\<close>

lemma slice_nonneg:
  assumes "0 \<le> a" and "0 \<le> b"
  shows "slice xs a (a + b) = take (nat b) (drop (nat a) xs)"
proof (cases "a < int (length xs)")
  case False
  with assms show ?thesis by (simp add: slice_def Let_def min_def)
next
  case True
  show ?thesis
  proof (cases "a + b \<le> int (length xs)")
    case True
    with assms \<open>a < int (length xs)\<close> show ?thesis
      by (simp add: slice_def Let_def min_def)
  next
    case False
    with assms \<open>a < int (length xs)\<close>
    have "slice xs a (a + b) = take (length xs - nat a) (drop (nat a) xs)"
      by (simp add: slice_def Let_def min_def nat_diff_distrib)
    also have "\<dots> = drop (nat a) xs" by simp
    also have "\<dots> = take (nat b) (drop (nat a) xs)"
      using False assms by simp
    finally show ?thesis .
  qed
qed

lemma concat_pages:
  "concat (map (\<lambda>i. take k (drop (i * k) xs)) [0..<m]) = take (m * k) xs"
proof (induction m)
  case 0
  show ?case by simp
next
  case (Suc m)
  have "take (m * k) xs @ take k (drop (m * k) xs) = take (m * k + k) xs"
    by (simp add: take_add)
  with Suc show ?case by (simp add: add.commute)
qed

lemma page_contents:
  assumes "1 \<le> page_value"
  shows "contents (paginatedProducts h page_value sorted_value) =
           take 10 (drop (nat ((page_value - 1) * 10)) (arrays h sorted_value))"
  using assms slice_nonneg [of "(page_value - 1) * 10" 10 "arrays h sorted_value"]
  by (simp add: paginatedProducts_def pageSize_def contents_new_array Let_def)

lemma page_contents_nat:
  "contents (paginatedProducts h (int (Suc i)) sorted_value) =
           take 10 (drop (i * 10) (arrays h sorted_value))"
  using page_contents [of "int (Suc i)" h sorted_value]
  by (simp add: nat_mult_distrib)

lemma ceil_pages: "nat \<lceil>real n / 10\<rceil> = (n + 9) div 10"
proof -
  define q where "q = (n + 9) div 10"
  have "n \<le> 10 * q" and "10 * q < n + 10"
    unfolding q_def by presburger+
  then have "real n \<le> real (10 * q)" and "real (10 * q) < real (n + 10)"
    by (simp_all only: of_nat_le_iff of_nat_less_iff)
  then have "real_of_int (int q) - 1 < real n / 10" and "real n / 10 \<le> real_of_int (int q)"
    by simp_all
  then have "\<lceil>real n / 10\<rceil> = int q"
    by (rule ceiling_unique)
  then show ?thesis by (simp add: q_def)
qed

lemma all_pages:
  "concat (map (\<lambda>i. contents (paginatedProducts h (int i) sorted_value))
             [1..<Suc (nat \<lceil>real (length (arrays h sorted_value)) / 10\<rceil>)]) =
   arrays h sorted_value"
proof -
  let ?xs = "arrays h sorted_value"
  let ?m = "(length ?xs + 9) div 10"
  let ?page = "\<lambda>i. contents (paginatedProducts h (int i) sorted_value)"
  have shift: "?page \<circ> Suc = (\<lambda>i. take 10 (drop (i * 10) ?xs))"
    by (rule ext) (simp only: comp_def page_contents_nat)
  have "[1..<Suc ?m] = map Suc [0..<?m]"
    by (simp add: map_Suc_upt)
  then have "concat (map ?page [1..<Suc ?m]) = concat (map (?page \<circ> Suc) [0..<?m])"
    by (simp only: map_map)
  also have "\<dots> = take (?m * 10) ?xs"
    by (simp only: shift concat_pages)
  also have "\<dots> = ?xs"
    by simp
  finally show ?thesis by (simp only: ceil_pages)
qed

lemma last_page_length:
  fixes n :: nat
  assumes "n \<noteq> 0"
  shows "\<exists>j. (n + 9) div 10 = Suc j \<and>
             min (n - j * 10) 10 = (if n mod 10 = 0 then 10 else n mod 10)"
proof -
  define d where "d = n div 10"
  define r where "r = n mod 10"
  have n: "n = 10 * d + r" and r: "r < 10"
    by (simp_all add: d_def r_def)
  show ?thesis
  proof (cases "r = 0")
    case True
    with n assms obtain j where d: "d = Suc j"
      by (cases d) auto
    have "(n + 9) div 10 = d"
      by (rule div_nat_eqI) (simp_all add: n True)
    moreover have "min (n - j * 10) 10 = 10"
      by (simp add: n True d)
    ultimately show ?thesis
      using True d by (simp add: r_def)
  next
    case False
    have "(n + 9) div 10 = Suc d"
      using False r by (intro div_nat_eqI) (simp_all add: n)
    moreover have "min (n - d * 10) 10 = r"
      using r by (simp add: n)
    ultimately show ?thesis
      using False by (simp add: r_def)
  qed
qed

lemma last_page:
  "length (contents (paginatedProducts h
      (int (nat \<lceil>real (length (arrays h sorted_value)) / 10\<rceil>)) sorted_value)) =
     (if length (arrays h sorted_value) = 0 then 0
      else if length (arrays h sorted_value) mod 10 = 0 then 10
      else length (arrays h sorted_value) mod 10)"
proof -
  define n where "n = length (arrays h sorted_value)"
  show ?thesis
  proof (cases "n = 0")
    case True
    then show ?thesis
      by (simp add: n_def paginatedProducts_def contents_new_array slice_def)
  next
    case False
    from last_page_length [OF False] obtain j where j: "(n + 9) div 10 = Suc j"
      and len: "min (n - j * 10) 10 = (if n mod 10 = 0 then 10 else n mod 10)"
      by blast
    have "length (contents (paginatedProducts h (int ((n + 9) div 10)) sorted_value)) =
               min (n - j * 10) 10"
      unfolding j by (simp only: page_contents_nat) (simp add: n_def)
    with len False show ?thesis
      unfolding n_def by (simp only: ceil_pages) simp
  qed
qed

text \<open>
  Claim C2. For a page number of at least 1, the page is the range of the sorted array
  that starts at \<open>(page - 1) * pageSize\<close> and has \<open>pageSize\<close> elements, cut off at the
  end of the array, and is empty when the start is not inside the array. The pages
  \<open>1, \<dots>, \<lceil>n / pageSize\<rceil>\<close> appended give the sorted array back, and the last of them
  has \<open>n mod pageSize\<close> elements, or \<open>pageSize\<close> when that is 0, or none when \<open>n = 0\<close>.
\<close>

theorem paginatedProducts_pages:
  assumes "1 \<le> page_value"
  shows "contents (paginatedProducts h page_value sorted_value) =
           take (nat pageSize)
             (drop (nat ((page_value - 1) * pageSize)) (arrays h sorted_value)) \<and>
         (int (length (arrays h sorted_value)) \<le> (page_value - 1) * pageSize \<longrightarrow>
            contents (paginatedProducts h page_value sorted_value) = []) \<and>
         concat (map (\<lambda>i. contents (paginatedProducts h (int i) sorted_value))
                   [1..<Suc (nat \<lceil>real (length (arrays h sorted_value)) /
                                  real_of_int pageSize\<rceil>)]) =
           arrays h sorted_value \<and>
         length (contents (paginatedProducts h
             (int (nat \<lceil>real (length (arrays h sorted_value)) / real_of_int pageSize\<rceil>))
             sorted_value)) =
           (if length (arrays h sorted_value) = 0 then 0
            else if length (arrays h sorted_value) mod nat pageSize = 0 then nat pageSize
            else length (arrays h sorted_value) mod nat pageSize)"
proof -
  have 1: "contents (paginatedProducts h page_value sorted_value) =
           take (nat pageSize)
             (drop (nat ((page_value - 1) * pageSize)) (arrays h sorted_value))"
    using page_contents [OF assms] by (simp add: pageSize_def)
  have 2: "int (length (arrays h sorted_value)) \<le> (page_value - 1) * pageSize \<longrightarrow>
            contents (paginatedProducts h page_value sorted_value) = []"
    unfolding 1 by simp
  have 3: "concat (map (\<lambda>i. contents (paginatedProducts h (int i) sorted_value))
                   [1..<Suc (nat \<lceil>real (length (arrays h sorted_value)) /
                                  real_of_int pageSize\<rceil>)]) =
           arrays h sorted_value"
    using all_pages [of h sorted_value] by (simp add: pageSize_def)
  have 4: "length (contents (paginatedProducts h
             (int (nat \<lceil>real (length (arrays h sorted_value)) / real_of_int pageSize\<rceil>))
             sorted_value)) =
           (if length (arrays h sorted_value) = 0 then 0
            else if length (arrays h sorted_value) mod nat pageSize = 0 then nat pageSize
            else length (arrays h sorted_value) mod nat pageSize)"
    using last_page [of h sorted_value] by (simp add: pageSize_def)
  from 1 2 3 4 show ?thesis by blast
qed

theorem paginatedProducts_pages_witness:
  "(1::int) \<le> 2 \<and> (1::int) \<le> 3 \<and>
   contents (paginatedProducts (store_of twelve) 2 0) =
     [item 10 ''pear'' 2, item 11 ''pear'' 2] \<and>
   int (length (arrays (store_of twelve) 0)) \<le> (3 - 1) * pageSize \<and>
   contents (paginatedProducts (store_of twelve) 3 0) = [] \<and>
   contents (paginatedProducts (store_of twelve) 1 0) @
     contents (paginatedProducts (store_of twelve) 2 0) = twelve"
proof -
  have two: "(1::int) \<le> 2" and three: "(1::int) \<le> 3" by simp_all
  have far: "int (length (arrays (store_of twelve) 0)) \<le> (3 - 1) * pageSize"
    by (simp add: store_of_def twelve_def pageSize_def)
  have pages:
    "[1..<Suc (nat \<lceil>real (length (arrays (store_of twelve) 0)) / real_of_int pageSize\<rceil>)] =
     [1, 2]"
    by (simp add: store_of_def twelve_def pageSize_def upt_rec)
  have tail:
    "take (nat pageSize) (drop (nat ((2 - 1) * pageSize)) (arrays (store_of twelve) 0)) =
     [item 10 ''pear'' 2, item 11 ''pear'' 2]"
    by (simp add: store_of_def twelve_def pageSize_def upt_rec item_def)
  have arr: "arrays (store_of twelve) 0 = twelve"
    by (simp add: store_of_def)
  show ?thesis
    using two three far paginatedProducts_pages [OF two, of "store_of twelve" 0]
      paginatedProducts_pages [OF three, of "store_of twelve" 0]
    unfolding pages tail
    by (simp add: arr)
qed

section \<open>Sorting\<close>

lemma consistent_refl: "consistent_comparator cmp \<Longrightarrow> cmp a a = 0"
  by (simp add: consistent_comparator_def)

lemma consistent_swap: "consistent_comparator cmp \<Longrightarrow> (cmp a b < 0) = (0 < cmp b a)"
  by (simp add: consistent_comparator_def)

lemma consistent_trans:
  "consistent_comparator cmp \<Longrightarrow> cmp a b \<le> 0 \<Longrightarrow> cmp b c \<le> 0 \<Longrightarrow> cmp a c \<le> 0"
  unfolding consistent_comparator_def by blast

lemma consistent_sym_zero:
  assumes "consistent_comparator cmp" and "cmp a b = 0"
  shows "cmp b a = 0"
proof -
  have "\<not> cmp b a < 0" using assms consistent_swap [of cmp b a] by simp
  moreover have "\<not> 0 < cmp b a" using assms consistent_swap [of cmp a b] by simp
  ultimately show ?thesis by simp
qed

lemma consistent_on_key:
  assumes "consistent_comparator cmp"
  shows "consistent_comparator (\<lambda>a b. cmp (f a) (f b))"
  unfolding consistent_comparator_def
proof (intro conjI allI impI)
  fix a b c
  show "cmp (f a) (f a) = 0" by (rule consistent_refl [OF assms])
  show "(cmp (f a) (f b) < 0) = (0 < cmp (f b) (f a))" by (rule consistent_swap [OF assms])
  assume "cmp (f a) (f b) \<le> 0 \<and> cmp (f b) (f c) \<le> 0"
  then show "cmp (f a) (f c) \<le> 0" using consistent_trans [OF assms] by blast
qed

lemma consistent_flip:
  assumes "consistent_comparator cmp"
  shows "consistent_comparator (\<lambda>a b. cmp b a)"
  unfolding consistent_comparator_def
proof (intro conjI allI impI)
  fix a b c
  show "cmp a a = 0" by (rule consistent_refl [OF assms])
  show "(cmp b a < 0) = (0 < cmp a b)" by (rule consistent_swap [OF assms])
  assume "cmp b a \<le> 0 \<and> cmp c b \<le> 0"
  then show "cmp c a \<le> 0" using consistent_trans [OF assms] by blast
qed

lemma consistent_difference: "consistent_comparator (\<lambda>a b. (f a :: number) - f b)"
  by (auto simp: consistent_comparator_def)

lemma consistent_zero: "consistent_comparator (\<lambda>a b. 0)"
  by (simp add: consistent_comparator_def)

lemma kind_if:
  assumes "(\<exists>f. \<forall>a. x a = Some (JString (f a))) \<or>
           (\<exists>f. \<forall>a. x a = Some (JNumber (f a))) \<or> (\<forall>a. x a = None)"
    and "(\<exists>f. \<forall>a. y a = Some (JString (f a))) \<or>
         (\<exists>f. \<forall>a. y a = Some (JNumber (f a))) \<or> (\<forall>a. y a = None)"
  shows "(\<exists>f. \<forall>a. (if c then x a else y a) = Some (JString (f a))) \<or>
         (\<exists>f. \<forall>a. (if c then x a else y a) = Some (JNumber (f a))) \<or>
         (\<forall>a. (if c then x a else y a) = None)"
  using assms by (cases c) simp_all

lemma kind_string:
  "(\<exists>f. \<forall>a. Some (JString (g a)) = Some (JString (f a))) \<or>
   (\<exists>f. \<forall>a. Some (JString (g a)) = Some (JNumber (f a))) \<or>
   (\<forall>a. Some (JString (g a)) = None)"
  by blast

lemma kind_number:
  "(\<exists>f. \<forall>a. Some (JNumber (g a)) = Some (JString (f a))) \<or>
   (\<exists>f. \<forall>a. Some (JNumber (g a)) = Some (JNumber (f a))) \<or>
   (\<forall>a. Some (JNumber (g a)) = None)"
  by blast

lemma kind_undefined:
  "(\<exists>f. \<forall>a::Product. (None :: jsval option) = Some (JString (f a))) \<or>
   (\<exists>f. \<forall>a::Product. (None :: jsval option) = Some (JNumber (f a))) \<or>
   (\<forall>a::Product. (None :: jsval option) = None)"
  by blast

lemma get_field_kind:
  "(\<exists>f. \<forall>a. get_field a col = Some (JString (f a))) \<or>
   (\<exists>f. \<forall>a. get_field a col = Some (JNumber (f a))) \<or>
   (\<forall>a. get_field a col = None)"
  unfolding get_field_def
  by (intro kind_if kind_string kind_number kind_undefined)

lemma compare_cases:
  "(\<exists>f. compare env col dir = (\<lambda>a b. localeCompare env (f a) (f b))) \<or>
   (\<exists>f. compare env col dir = (\<lambda>a b. localeCompare env (f b) (f a))) \<or>
   (\<exists>f. compare env col dir = (\<lambda>a b. f a - f b)) \<or>
   (\<exists>f. compare env col dir = (\<lambda>a b. f b - f a)) \<or>
   compare env col dir = (\<lambda>a b. 0)"
proof -
  consider (s) f where "\<forall>a. get_field a col = Some (JString (f a))"
    | (n) f where "\<forall>a. get_field a col = Some (JNumber (f a))"
    | (u) "\<forall>a. get_field a col = None"
    using get_field_kind [of col] by blast
  then show ?thesis
  proof cases
    case s
    then have "compare env col dir =
      (if dir = ''asc'' then (\<lambda>a b. localeCompare env (f a) (f b))
       else (\<lambda>a b. localeCompare env (f b) (f a)))"
      by (simp add: compare_def fun_eq_iff)
    then show ?thesis by (cases "dir = ''asc''") (simp_all, blast+)
  next
    case n
    then have "compare env col dir =
      (if dir = ''asc'' then (\<lambda>a b. f a - f b) else (\<lambda>a b. f b - f a))"
      by (simp add: compare_def fun_eq_iff)
    then show ?thesis by (cases "dir = ''asc''") (simp_all, blast+)
  next
    case u
    then have "compare env col dir = (\<lambda>a b. 0)"
      by (simp add: compare_def fun_eq_iff)
    then show ?thesis by simp
  qed
qed

lemma consistent_compare:
  assumes "consistent_comparator (localeCompare env)"
  shows "consistent_comparator (compare env col dir)"
proof -
  consider (a) f where "compare env col dir = (\<lambda>a b. localeCompare env (f a) (f b))"
    | (b) f where "compare env col dir = (\<lambda>a b. localeCompare env (f b) (f a))"
    | (c) f where "compare env col dir = (\<lambda>a b. f a - f b)"
    | (d) f where "compare env col dir = (\<lambda>a b. f b - f a)"
    | (e) "compare env col dir = (\<lambda>a b. 0)"
    using compare_cases [of env col dir] by blast
  then show ?thesis
  proof cases
    case a
    show ?thesis unfolding a by (rule consistent_on_key [OF assms])
  next
    case b
    show ?thesis unfolding b by (rule consistent_flip [OF consistent_on_key [OF assms]])
  next
    case c
    show ?thesis unfolding c by (rule consistent_difference)
  next
    case d
    show ?thesis unfolding d by (rule consistent_flip [OF consistent_difference])
  next
    case e
    show ?thesis unfolding e by (rule consistent_zero)
  qed
qed


lemma set_insert_sorted: "set (insert_sorted cmp x ys) = insert x (set ys)"
  by (induction ys) auto

lemma set_array_sort: "set (array_sort cmp xs) = set xs"
  by (induction xs) (simp_all add: set_insert_sorted)

lemma length_insert_sorted: "length (insert_sorted cmp x ys) = Suc (length ys)"
  by (induction ys) simp_all

lemma length_array_sort: "length (array_sort cmp xs) = length xs"
  by (induction xs) (simp_all add: length_insert_sorted)

lemma filter_insert_sorted:
  assumes "consistent_comparator cmp"
  shows "filter (\<lambda>b. cmp a b = 0) (insert_sorted cmp x ys) =
         filter (\<lambda>b. cmp a b = 0) (x # ys)"
proof (induction ys)
  case Nil
  show ?case by simp
next
  case (Cons y ys)
  show ?case
  proof (cases "cmp x y \<le> 0")
    case True
    then show ?thesis by simp
  next
    case False
    have "\<not> (cmp a x = 0 \<and> cmp a y = 0)"
    proof
      assume eq: "cmp a x = 0 \<and> cmp a y = 0"
      then have "cmp x a = 0" using consistent_sym_zero [OF assms] by blast
      with eq have "cmp x y \<le> 0" using consistent_trans [OF assms, of x a y] by simp
      with False show False by simp
    qed
    with False Cons show ?thesis by auto
  qed
qed

lemma filter_array_sort:
  assumes "consistent_comparator cmp"
  shows "filter (\<lambda>b. cmp a b = 0) (array_sort cmp xs) = filter (\<lambda>b. cmp a b = 0) xs"
proof (induction xs)
  case Nil
  show ?case by simp
next
  case (Cons x xs)
  have "filter (\<lambda>b. cmp a b = 0) (array_sort cmp (x # xs)) =
        filter (\<lambda>b. cmp a b = 0) (x # array_sort cmp xs)"
    by (simp only: array_sort.simps filter_insert_sorted [OF assms])
  with Cons show ?case by simp
qed

lemma sorted_view_contents:
  "contents (sortedFilteredProducts env h spec filtered_value) =
     (if column spec = [] \<or> direction spec = [] then arrays h filtered_value
      else array_sort (compare env (column spec) (direction spec)) (arrays h filtered_value))"
  by (simp add: sortedFilteredProducts_def new_array_def contents_def)

text \<open>
  Claim C6. The sort is stable in either direction: for every product \<open>a\<close>, the products
  whose sort key compares equal to that of \<open>a\<close> stand in the sorted array in the order
  they have in the filtered array. (The direction is any string, so the statement covers
  both; with an empty column or direction the array is not sorted at all.)
\<close>

theorem sortedFilteredProducts_stable:
  assumes "consistent_comparator (localeCompare env)"
  shows "filter (\<lambda>b. compare env (column spec) (direction spec) a b = 0)
           (contents (sortedFilteredProducts env h spec filtered_value)) =
         filter (\<lambda>b. compare env (column spec) (direction spec) a b = 0)
           (arrays h filtered_value)"
  using filter_array_sort [OF consistent_compare [OF assms]]
  by (simp add: sorted_view_contents)

lemma strictly_sorted_insert:
  assumes c: "consistent_comparator cmp"
    and "sorted_wrt (\<lambda>a b. cmp a b < 0) ys"
    and "\<forall>y \<in> set ys. cmp x y \<noteq> 0"
  shows "sorted_wrt (\<lambda>a b. cmp a b < 0) (insert_sorted cmp x ys)"
  using assms(2,3)
proof (induction ys)
  case Nil
  show ?case by simp
next
  case (Cons y ys)
  show ?case
  proof (cases "cmp x y \<le> 0")
    case True
    have "cmp x z < 0" if "z \<in> set (y # ys)" for z
    proof -
      have "cmp y z \<le> 0"
        using that Cons.prems(1) consistent_refl [OF c, of y] by auto
      with True have "cmp x z \<le> 0" by (rule consistent_trans [OF c])
      moreover have "cmp x z \<noteq> 0" using that Cons.prems(2) by blast
      ultimately show ?thesis by simp
    qed
    with True Cons.prems(1) show ?thesis by simp
  next
    case False
    then have "cmp y x < 0" using consistent_swap [OF c, of y x] by simp
    with False Cons show ?thesis by (auto simp: set_insert_sorted)
  qed
qed

lemma strictly_sorted_array_sort:
  assumes c: "consistent_comparator cmp"
    and "sorted_wrt (\<lambda>a b. cmp a b \<noteq> 0) xs"
  shows "sorted_wrt (\<lambda>a b. cmp a b < 0) (array_sort cmp xs)"
  using assms(2)
proof (induction xs)
  case Nil
  show ?case by simp
next
  case (Cons x xs)
  then show ?case
    by (simp add: strictly_sorted_insert [OF c] set_array_sort)
qed

lemma insert_sorted_last:
  assumes "\<forall>z \<in> set zs. 0 < cmp x z"
  shows "insert_sorted cmp x zs = zs @ [x]"
  using assms by (induction zs) auto

lemma array_sort_descending:
  assumes "sorted_wrt (\<lambda>a b. 0 < cmp a b) ys"
  shows "array_sort cmp ys = rev ys"
  using assms
proof (induction ys)
  case Nil
  show ?case by simp
next
  case (Cons y ys)
  then have "insert_sorted cmp y (rev ys) = rev ys @ [y]"
    by (intro insert_sorted_last) simp
  with Cons show ?case by simp
qed

lemma compare_desc:
  "compare env col ''desc'' a b = compare env col ''asc'' b a"
  by (simp add: compare_def split: option.splits jsval.splits)


text \<open>
  Without ties the ascending order is strict, and sorting a strictly ascending array with
  the comparator of the other direction moves every element behind all its successors.
\<close>

lemma ties_everywhere:
  assumes "\<forall>i j. i < j \<and> j < length xs \<longrightarrow> (0::number) \<noteq> 0"
  shows "rev xs = xs"
proof -
  have "length xs \<le> 1"
  proof (rule ccontr)
    assume "\<not> length xs \<le> 1"
    then have "(0::nat) < 1 \<and> 1 < length xs" by simp
    with assms show False by blast
  qed
  then show ?thesis by (cases xs) simp_all
qed

text \<open>
  Claim C7, for keys without ties. When no two products of the filtered array have sort
  keys that compare equal (for numbers: equal numbers; for strings: \<open>localeCompare\<close>
  returns 0), sorting it ascending by a column and sorting the result descending by the
  same column gives the reverse of the ascending result.
\<close>

theorem ascending_then_descending_reverses:
  assumes "consistent_comparator (localeCompare env)"
    and "\<forall>i j. i < j \<and> j < length (arrays h filtered_value) \<longrightarrow>
           compare env col ''asc'' (arrays h filtered_value ! i) (arrays h filtered_value ! j) \<noteq> 0"
  shows "contents (sortedFilteredProducts env
            (snd (sortedFilteredProducts env h \<lparr>column = col, direction = ''asc''\<rparr> filtered_value))
            \<lparr>column = col, direction = ''desc''\<rparr>
            (fst (sortedFilteredProducts env h \<lparr>column = col, direction = ''asc''\<rparr> filtered_value))) =
         rev (contents (sortedFilteredProducts env h \<lparr>column = col, direction = ''asc''\<rparr>
                filtered_value))"
proof -
  let ?xs = "arrays h filtered_value"
  let ?asc = "sortedFilteredProducts env h \<lparr>column = col, direction = ''asc''\<rparr> filtered_value"
  let ?up = "compare env col ''asc''"
  let ?down = "compare env col ''desc''"
  have again: "contents (sortedFilteredProducts env (snd ?asc)
                  \<lparr>column = col, direction = ''desc''\<rparr> (fst ?asc)) =
               (if col = [] then contents ?asc else array_sort ?down (contents ?asc))"
    by (subst sorted_view_contents) (simp add: contents_def)
  show ?thesis
  proof (cases "col = []")
    case True
    then have "?up = (\<lambda>a b. 0)"
      by (simp add: compare_def get_field_def fun_eq_iff)
    with assms(2) have "rev ?xs = ?xs"
      by (intro ties_everywhere) simp
    with True again show ?thesis by (simp add: sorted_view_contents)
  next
    case False
    have c: "consistent_comparator ?up"
      by (rule consistent_compare [OF assms(1)])
    from assms(2) have "sorted_wrt (\<lambda>a b. ?up a b \<noteq> 0) ?xs"
      by (simp add: sorted_wrt_iff_nth_less)
    then have "sorted_wrt (\<lambda>a b. ?up a b < 0) (array_sort ?up ?xs)"
      by (rule strictly_sorted_array_sort [OF c])
    then have "sorted_wrt (\<lambda>a b. 0 < ?down a b) (array_sort ?up ?xs)"
      by (simp add: compare_desc consistent_swap [OF c])
    then have "array_sort ?down (array_sort ?up ?xs) = rev (array_sort ?up ?xs)"
      by (rule array_sort_descending)
    with False again show ?thesis by (simp add: sorted_view_contents)
  qed
qed

text \<open>
  Claim C9. \<open>sortedFilteredProducts\<close> does not change any array that existed before it
  ran, in particular neither the array of the products nor the filtered array: its result
  is a new array, different from both, and the sort object is untouched.
\<close>

theorem sortedFilteredProducts_frame:
  assumes "filtered_value < top h" and "products_value < top h"
  shows "fst (sortedFilteredProducts env h spec filtered_value) \<noteq> filtered_value \<and>
         fst (sortedFilteredProducts env h spec filtered_value) \<noteq> products_value \<and>
         arrays (snd (sortedFilteredProducts env h spec filtered_value)) filtered_value =
           arrays h filtered_value \<and>
         arrays (snd (sortedFilteredProducts env h spec filtered_value)) products_value =
           arrays h products_value \<and>
         (\<forall>a. a < top h \<longrightarrow>
            arrays (snd (sortedFilteredProducts env h spec filtered_value)) a = arrays h a) \<and>
         objects (snd (sortedFilteredProducts env h spec filtered_value)) = objects h"
  using assms by (simp add: sortedFilteredProducts_def new_array_def)

text \<open>The comparison of the example platform is a consistent comparator.\<close>

lemma code_unit_compare_refl: "code_unit_compare a a = 0"
  by (induction a) simp_all

lemma code_unit_compare_swap: "(code_unit_compare a b < 0) = (0 < code_unit_compare b a)"
  by (induction a b rule: code_unit_compare.induct) simp_all

lemma code_unit_compare_trans:
  "code_unit_compare a b \<le> 0 \<Longrightarrow> code_unit_compare b c \<le> 0 \<Longrightarrow> code_unit_compare a c \<le> 0"
proof (induction a arbitrary: b c)
  case Nil
  then show ?case by (cases c) simp_all
next
  case (Cons x a)
  then obtain y b' where b: "b = y # b'" by (cases b) auto
  with Cons.prems obtain z c' where c: "c = z # c'" by (cases c) auto
  from Cons.prems Cons.IH [of b' c'] show ?case
    unfolding b c by (auto split: if_splits)
qed

lemma example_platform_consistent: "consistent_comparator (localeCompare example_platform)"
  unfolding consistent_comparator_def example_platform_def
  using code_unit_compare_refl code_unit_compare_swap code_unit_compare_trans
  by (simp, blast)


theorem sortedFilteredProducts_stable_witness:
  "consistent_comparator (localeCompare example_platform) \<and>
   filter (\<lambda>b. compare example_platform ''price'' ''desc'' (item 1 ''pear'' 5) b = 0)
     (contents (sortedFilteredProducts example_platform (store_of fruits)
        \<lparr>column = ''price'', direction = ''desc''\<rparr> 0)) =
   [item 1 ''pear'' 5, item 3 ''fig'' 5]"
  using example_platform_consistent
    sortedFilteredProducts_stable [OF example_platform_consistent,
      of "\<lparr>column = ''price'', direction = ''desc''\<rparr>" "item 1 ''pear'' 5" "store_of fruits" 0]
  by (simp add: compare_def get_field_def item_def store_of_def fruits_def)

theorem ascending_then_descending_reverses_witness:
  "consistent_comparator (localeCompare example_platform) \<and>
   compare example_platform ''title'' ''asc'' (item 1 ''pear'' 5) (item 2 ''apple'' 7) \<noteq> 0 \<and>
   compare example_platform ''title'' ''asc'' (item 1 ''pear'' 5) (item 3 ''fig'' 5) \<noteq> 0 \<and>
   compare example_platform ''title'' ''asc'' (item 2 ''apple'' 7) (item 3 ''fig'' 5) \<noteq> 0 \<and>
   contents (sortedFilteredProducts example_platform
      (snd (sortedFilteredProducts example_platform (store_of fruits)
              \<lparr>column = ''title'', direction = ''asc''\<rparr> 0))
      \<lparr>column = ''title'', direction = ''desc''\<rparr>
      (fst (sortedFilteredProducts example_platform (store_of fruits)
              \<lparr>column = ''title'', direction = ''asc''\<rparr> 0))) =
   [item 1 ''pear'' 5, item 3 ''fig'' 5, item 2 ''apple'' 7]"
proof -
  have "sorted_wrt (\<lambda>a b. compare example_platform ''title'' ''asc'' a b \<noteq> 0)
          (arrays (store_of fruits) 0)"
    by (simp add: compare_def get_field_def item_def store_of_def fruits_def
        example_platform_def)
  then have ties: "\<forall>i j. i < j \<and> j < length (arrays (store_of fruits) 0) \<longrightarrow>
      compare example_platform ''title'' ''asc''
        (arrays (store_of fruits) 0 ! i) (arrays (store_of fruits) 0 ! j) \<noteq> 0"
    by (simp only: sorted_wrt_iff_nth_less) blast
  have asc: "contents (sortedFilteredProducts example_platform (store_of fruits)
                \<lparr>column = ''title'', direction = ''asc''\<rparr> 0) =
             [item 2 ''apple'' 7, item 3 ''fig'' 5, item 1 ''pear'' 5]"
    by (simp add: sorted_view_contents compare_def get_field_def item_def store_of_def
        fruits_def example_platform_def)
  have pairs:
    "compare example_platform ''title'' ''asc'' (item 1 ''pear'' 5) (item 2 ''apple'' 7) \<noteq> 0"
    "compare example_platform ''title'' ''asc'' (item 1 ''pear'' 5) (item 3 ''fig'' 5) \<noteq> 0"
    "compare example_platform ''title'' ''asc'' (item 2 ''apple'' 7) (item 3 ''fig'' 5) \<noteq> 0"
    by (simp_all add: compare_def get_field_def item_def example_platform_def)
  show ?thesis
    using example_platform_consistent pairs
      ascending_then_descending_reverses [OF example_platform_consistent ties]
    unfolding asc by simp
qed

theorem sortedFilteredProducts_frame_witness:
  "0 < top (store_of fruits) \<and>
   fst (sortedFilteredProducts example_platform (store_of fruits)
          \<lparr>column = ''title'', direction = ''asc''\<rparr> 0) \<noteq> 0 \<and>
   arrays (snd (sortedFilteredProducts example_platform (store_of fruits)
                  \<lparr>column = ''title'', direction = ''asc''\<rparr> 0)) 0 = fruits \<and>
   contents (sortedFilteredProducts example_platform (store_of fruits)
               \<lparr>column = ''title'', direction = ''asc''\<rparr> 0) =
     [item 2 ''apple'' 7, item 3 ''fig'' 5, item 1 ''pear'' 5]"
proof -
  have allocated: "0 < top (store_of fruits)"
    by (simp add: store_of_def)
  have arr: "arrays (store_of fruits) 0 = fruits"
    by (simp add: store_of_def)
  have sorted: "contents (sortedFilteredProducts example_platform (store_of fruits)
                \<lparr>column = ''title'', direction = ''asc''\<rparr> 0) =
             [item 2 ''apple'' 7, item 3 ''fig'' 5, item 1 ''pear'' 5]"
    by (simp add: sorted_view_contents compare_def get_field_def item_def store_of_def
        fruits_def example_platform_def)
  show ?thesis
    using allocated sorted
      sortedFilteredProducts_frame [OF allocated allocated, of example_platform
        "\<lparr>column = ''title'', direction = ''asc''\<rparr>"]
    by (simp add: arr)
qed

lemma code_unit_compare_consistent: "consistent_comparator code_unit_compare"
  using example_platform_consistent by (simp add: example_platform_def)

lemma soft_hyphen_platform_consistent:
  "consistent_comparator (localeCompare soft_hyphen_platform)"
  using consistent_on_key [OF code_unit_compare_consistent, of strip_soft_hyphens]
  by (simp add: soft_hyphen_platform_def)

text \<open>
  Claim C7 does not hold when duplicate keys are keys that are the same value: a
  consistent \<open>localeCompare\<close> returns 0 for some pairs of different strings. The titles
  \<open>ab\<close> and \<open>a\<close>, soft hyphen, \<open>b\<close> are different keys that tie, so the stable sort
  leaves the two products in their order in both directions, and sorting descending
  after ascending does not reverse.
\<close>

theorem distinct_keys_may_tie:
  "consistent_comparator (localeCompare soft_hyphen_platform) \<and>
   distinct (map (\<lambda>p. get_field p ''title'') (arrays (store_of hyphenated) 0)) \<and>
   contents (sortedFilteredProducts soft_hyphen_platform (store_of hyphenated)
      \<lparr>column = ''title'', direction = ''asc''\<rparr> 0) =
     [item 1 ''ab'' 5, item 2 [CHR ''a'', CHR 0xAD, CHR ''b''] 7] \<and>
   contents (sortedFilteredProducts soft_hyphen_platform
      (snd (sortedFilteredProducts soft_hyphen_platform (store_of hyphenated)
              \<lparr>column = ''title'', direction = ''asc''\<rparr> 0))
      \<lparr>column = ''title'', direction = ''desc''\<rparr>
      (fst (sortedFilteredProducts soft_hyphen_platform (store_of hyphenated)
              \<lparr>column = ''title'', direction = ''asc''\<rparr> 0))) =
     [item 1 ''ab'' 5, item 2 [CHR ''a'', CHR 0xAD, CHR ''b''] 7] \<and>
   contents (sortedFilteredProducts soft_hyphen_platform
      (snd (sortedFilteredProducts soft_hyphen_platform (store_of hyphenated)
              \<lparr>column = ''title'', direction = ''asc''\<rparr> 0))
      \<lparr>column = ''title'', direction = ''desc''\<rparr>
      (fst (sortedFilteredProducts soft_hyphen_platform (store_of hyphenated)
              \<lparr>column = ''title'', direction = ''asc''\<rparr> 0))) \<noteq>
     rev (contents (sortedFilteredProducts soft_hyphen_platform (store_of hyphenated)
            \<lparr>column = ''title'', direction = ''asc''\<rparr> 0))"
proof -
  have keys: "distinct (map (\<lambda>p. get_field p ''title'') (arrays (store_of hyphenated) 0))"
    by (simp add: store_of_def hyphenated_def get_field_def item_def)
  have asc: "contents (sortedFilteredProducts soft_hyphen_platform (store_of hyphenated)
      \<lparr>column = ''title'', direction = ''asc''\<rparr> 0) =
     [item 1 ''ab'' 5, item 2 [CHR ''a'', CHR 0xAD, CHR ''b''] 7]"
    by (simp add: sorted_view_contents compare_def get_field_def item_def store_of_def
        hyphenated_def soft_hyphen_platform_def strip_soft_hyphens_def)
  have desc: "contents (sortedFilteredProducts soft_hyphen_platform
      (snd (sortedFilteredProducts soft_hyphen_platform (store_of hyphenated)
              \<lparr>column = ''title'', direction = ''asc''\<rparr> 0))
      \<lparr>column = ''title'', direction = ''desc''\<rparr>
      (fst (sortedFilteredProducts soft_hyphen_platform (store_of hyphenated)
              \<lparr>column = ''title'', direction = ''asc''\<rparr> 0))) =
     [item 1 ''ab'' 5, item 2 [CHR ''a'', CHR 0xAD, CHR ''b''] 7]"
    by (simp add: sortedFilteredProducts_def new_array_def contents_def compare_def
        get_field_def item_def store_of_def hyphenated_def soft_hyphen_platform_def
        strip_soft_hyphens_def)
  have differ: "[item 1 ''ab'' 5, item 2 [CHR ''a'', CHR 0xAD, CHR ''b''] 7] \<noteq>
                rev [item 1 ''ab'' 5, item 2 [CHR ''a'', CHR 0xAD, CHR ''b''] 7]"
    by (simp add: item_def)
  from soft_hyphen_platform_consistent keys asc desc differ show ?thesis
    by (simp only:) simp
qed

section \<open>The fetch\<close>

text \<open>What the loop leaves alone.\<close>

lemma push_products_frame:
  "products (push_products result res st) = products st \<and>
   loading (push_products result res st) = loading st \<and>
   console (push_products result res st) = console st \<and>
   requests (push_products result res st) = requests st \<and>
   search (push_products result res st) = search st \<and>
   page (push_products result res st) = page st \<and>
   sort' (push_products result res st) = sort' st \<and>
   filteredProducts_value (push_products result res st) = filteredProducts_value st \<and>
   watched (push_products result res st) = watched st \<and>
   top (heap (push_products result res st)) = top (heap st) \<and>
   objects (heap (push_products result res st)) = objects (heap st) \<and>
   (\<forall>a. a \<noteq> result \<longrightarrow>
      arrays (heap (push_products result res st)) a = arrays (heap st) a)"
  by (simp add: push_products_def split: option.splits)

lemma fetch_pages_stop:
  "\<not> skp < tot \<Longrightarrow> fetch_pages net tot result skp st = (None, st)"
  by (subst fetch_pages.simps) simp

lemma fetch_pages_fail:
  "skp < tot \<Longrightarrow> net \<lparr>limit = fetch_limit, skip = Some skp\<rparr> = Inl err \<Longrightarrow>
   fetch_pages net tot result skp st =
     (Some err, st\<lparr>requests := requests st @ [\<lparr>limit = fetch_limit, skip = Some skp\<rparr>]\<rparr>)"
  by (subst fetch_pages.simps) simp

lemma fetch_pages_step:
  "skp < tot \<Longrightarrow> net \<lparr>limit = fetch_limit, skip = Some skp\<rparr> = Inr res \<Longrightarrow>
   fetch_pages net tot result skp st =
     fetch_pages net tot result (skp + fetch_limit)
       (push_products result res
          (st\<lparr>requests := requests st @ [\<lparr>limit = fetch_limit, skip = Some skp\<rparr>]\<rparr>))"
  by (subst fetch_pages.simps) simp

lemma fetch_pages_frame:
  "products (snd (fetch_pages net tot result skp st)) = products st \<and>
   loading (snd (fetch_pages net tot result skp st)) = loading st \<and>
   console (snd (fetch_pages net tot result skp st)) = console st \<and>
   search (snd (fetch_pages net tot result skp st)) = search st \<and>
   page (snd (fetch_pages net tot result skp st)) = page st \<and>
   sort' (snd (fetch_pages net tot result skp st)) = sort' st \<and>
   filteredProducts_value (snd (fetch_pages net tot result skp st)) =
     filteredProducts_value st \<and>
   watched (snd (fetch_pages net tot result skp st)) = watched st \<and>
   top (heap (snd (fetch_pages net tot result skp st))) = top (heap st) \<and>
   objects (heap (snd (fetch_pages net tot result skp st))) = objects (heap st) \<and>
   (\<forall>a. a \<noteq> result \<longrightarrow>
      arrays (heap (snd (fetch_pages net tot result skp st))) a = arrays (heap st) a)"
proof (induction net tot result skp st rule: fetch_pages.induct)
  case (1 net tot result skp st)
  show ?case
  proof (cases "skp < tot")
    case False
    show ?thesis unfolding fetch_pages_stop [OF False] by simp
  next
    case True
    let ?req = "\<lparr>limit = fetch_limit, skip = Some skp\<rparr>"
    let ?st1 = "st\<lparr>requests := requests st @ [?req]\<rparr>"
    show ?thesis
    proof (cases "net ?req")
      case (Inl err)
      have "fetch_pages net tot result skp st = (Some err, ?st1)"
        using True Inl by (simp add: fetch_pages_fail)
      then show ?thesis by simp
    next
      case (Inr res)
      have eq: "fetch_pages net tot result skp st =
            fetch_pages net tot result (skp + fetch_limit) (push_products result res ?st1)"
        using True Inr by (simp add: fetch_pages_step)
      from "1.IH" [OF True refl refl Inr] push_products_frame [of result res ?st1]
      show ?thesis unfolding eq by simp
    qed
  qed
qed

text \<open>The requests of the loop, and how it ends.\<close>

lemma fetch_pages_requests:
  "\<exists>rs. requests (snd (fetch_pages net tot result skp st)) = requests st @ rs \<and>
        (fst (fetch_pages net tot result skp st) = None \<longrightarrow>
           (\<forall>req \<in> set rs. succeeds net req))"
proof (induction net tot result skp st rule: fetch_pages.induct)
  case (1 net tot result skp st)
  show ?case
  proof (cases "skp < tot")
    case False
    show ?thesis unfolding fetch_pages_stop [OF False] by simp
  next
    case True
    let ?req = "\<lparr>limit = fetch_limit, skip = Some skp\<rparr>"
    let ?st1 = "st\<lparr>requests := requests st @ [?req]\<rparr>"
    show ?thesis
    proof (cases "net ?req")
      case (Inl err)
      have "fetch_pages net tot result skp st = (Some err, ?st1)"
        using True Inl by (simp add: fetch_pages_fail)
      then show ?thesis by simp
    next
      case (Inr res)
      let ?next = "fetch_pages net tot result (skp + fetch_limit) (push_products result res ?st1)"
      from "1.IH" [OF True refl refl Inr] obtain rs where
        both: "requests (snd ?next) = requests (push_products result res ?st1) @ rs \<and>
               (fst ?next = None \<longrightarrow> (\<forall>req \<in> set rs. succeeds net req))" ..
      from both have rs: "requests (snd ?next) = requests (push_products result res ?st1) @ rs"
        by (rule conjunct1)
      from both have ok: "fst ?next = None \<longrightarrow> (\<forall>req \<in> set rs. succeeds net req)"
        by (rule conjunct2)
      have "requests (push_products result res ?st1) = requests st @ [?req]"
        using push_products_frame [of result res ?st1] by simp
      with rs have A: "requests (snd ?next) = requests st @ (?req # rs)" by simp
      have B: "fst ?next = None \<longrightarrow> (\<forall>req \<in> set (?req # rs). succeeds net req)"
        using ok Inr by (simp add: succeeds_def)
      have eq: "fetch_pages net tot result skp st = ?next"
        using True Inr by (simp add: fetch_pages_step)
      show ?thesis unfolding eq using A B by (intro exI [of _ "?req # rs"] conjI)
    qed
  qed
qed

text \<open>
  The loop runs for the page numbers below \<open>\<lceil>total / 30\<rceil>\<close>; when all these requests
  succeed it sends them in order and appends their records to \<open>result\<close>.
\<close>

lemma pages_condition:
  "(fetch_limit * real j < tot) = (j < nat \<lceil>tot / fetch_limit\<rceil>)"
proof -
  have "(j < nat \<lceil>tot / fetch_limit\<rceil>) = (int j < \<lceil>tot / fetch_limit\<rceil>)"
    by (rule zless_nat_eq_int_zless)
  also have "\<dots> = (real_of_int (int j) < tot / fetch_limit)"
    by (rule less_ceiling_iff)
  also have "\<dots> = (fetch_limit * real j < tot)"
    by (simp add: fetch_limit_def field_simps)
  finally show ?thesis by simp
qed

lemma push_products_records:
  assumes "net (page_request k) = Inr res"
  shows "push_products result res st =
         st\<lparr>heap := (heap st)\<lparr>arrays :=
               (arrays (heap st))(result := arrays (heap st) result @ page_records net k)\<rparr>\<rparr>"
  using assms by (simp add: push_products_def page_records_def split: option.splits)

lemma fetch_pages_all:
  assumes "\<forall>k. j \<le> k \<and> k < nat \<lceil>tot / fetch_limit\<rceil> \<longrightarrow> succeeds net (page_request k)"
    and "nat \<lceil>tot / fetch_limit\<rceil> - j = d"
  shows "fetch_pages net tot result (fetch_limit * real j) st =
         (None,
          st\<lparr>requests := requests st @ map page_request [j..<nat \<lceil>tot / fetch_limit\<rceil>],
             heap := (heap st)\<lparr>arrays := (arrays (heap st))
               (result := arrays (heap st) result @
                  concat (map (page_records net) [j..<nat \<lceil>tot / fetch_limit\<rceil>]))\<rparr>\<rparr>)"
  using assms
proof (induction d arbitrary: j st)
  case 0
  from "0.prems"(2) have fin: "\<not> j < nat \<lceil>tot / fetch_limit\<rceil>"
    by linarith
  have stop: "\<not> fetch_limit * real j < tot"
    unfolding pages_condition by (rule fin)
  from fin have "nat \<lceil>tot / fetch_limit\<rceil> \<le> j"
    by linarith
  then have empty: "[j..<nat \<lceil>tot / fetch_limit\<rceil>] = []"
    by (rule upt_conv_Nil)
  show ?case
    unfolding empty fetch_pages_stop [OF stop] by simp
next
  case (Suc d)
  let ?n = "nat \<lceil>tot / fetch_limit\<rceil>"
  let ?st1 = "st\<lparr>requests := requests st @ [page_request j]\<rparr>"
  let ?st2 = "st\<lparr>requests := requests st @ [page_request j],
                heap := (heap st)\<lparr>arrays := (arrays (heap st))
                  (result := arrays (heap st) result @ page_records net j)\<rparr>\<rparr>"
  from Suc.prems(2) have less: "j < ?n" by linarith
  have cond: "fetch_limit * real j < tot"
    unfolding pages_condition by (rule less)
  from Suc.prems(1) less have "succeeds net (page_request j)" by simp
  then obtain res where res: "net (page_request j) = Inr res"
    by (cases "net (page_request j)") (simp_all add: succeeds_def)
  have pushed: "push_products result res ?st1 = ?st2"
    by (simp add: push_products_records [of net j res, OF res])
  have next_skip: "fetch_limit * real j + fetch_limit = fetch_limit * real (Suc j)"
    by (simp add: algebra_simps)
  have "fetch_pages net tot result (fetch_limit * real j) st =
        fetch_pages net tot result (fetch_limit * real j + fetch_limit)
          (push_products result res ?st1)"
    using cond res by (simp add: fetch_pages_step page_request_def)
  then have step: "fetch_pages net tot result (fetch_limit * real j) st =
                   fetch_pages net tot result (fetch_limit * real (Suc j)) ?st2"
    by (simp only: pushed next_skip)
  have later: "\<forall>k. Suc j \<le> k \<and> k < ?n \<longrightarrow> succeeds net (page_request k)"
    using Suc.prems(1) by simp
  have fewer: "?n - Suc j = d"
    using Suc.prems(2) by linarith
  have rest: "fetch_pages net tot result (fetch_limit * real (Suc j)) ?st2 =
              (None,
               ?st2\<lparr>requests := requests ?st2 @ map page_request [Suc j..<?n],
                  heap := (heap ?st2)\<lparr>arrays := (arrays (heap ?st2))
                    (result := arrays (heap ?st2) result @
                       concat (map (page_records net) [Suc j..<?n]))\<rparr>\<rparr>)"
    using later fewer by (rule Suc.IH)
  have list: "[j..<?n] = j # [Suc j..<?n]"
    using less by (rule upt_conv_Cons)
  show ?case
    unfolding step rest list by (simp add: fun_upd_def cong: if_cong)
qed


text \<open>The \<open>try\<close> block as a whole, and \<open>onMounted\<close> in terms of it.\<close>

lemma fetch_all_outcome:
  "(\<exists>rs. requests (snd (fetch_all net st)) = requests st @ rs \<and>
         (fst (fetch_all net st) = None \<longrightarrow> (\<forall>req \<in> set rs. succeeds net req))) \<and>
   console (snd (fetch_all net st)) = console st \<and>
   (\<forall>a. a < top (heap st) \<longrightarrow> arrays (heap (snd (fetch_all net st))) a = arrays (heap st) a) \<and>
   (fst (fetch_all net st) \<noteq> None \<longrightarrow> products (snd (fetch_all net st)) = products st)"
proof (cases "net \<lparr>limit = 1, skip = None\<rparr>")
  case (Inl err)
  then show ?thesis by (simp add: fetch_all_def)
next
  case (Inr body)
  show ?thesis
  proof (cases body)
    case None
    with Inr show ?thesis by (simp add: fetch_all_def)
  next
    case (Some init)
    define tot where "tot = (case total' init of None \<Rightarrow> 100 | Some t \<Rightarrow> if t = 0 then 100 else t)"
    define st2 where "st2 = st\<lparr>loading := True,
      requests := requests st @ [\<lparr>limit = 1, skip = None\<rparr>],
      heap := (heap st)\<lparr>arrays := (arrays (heap st))(top (heap st) := []),
                         top := Suc (top (heap st))\<rparr>\<rparr>"
    define loop where "loop = fetch_pages net tot (top (heap st)) 0 st2"
    have all: "fetch_all net st =
               (case fst loop of
                  Some err \<Rightarrow> (Some err, snd loop)
                | None \<Rightarrow> (None, (snd loop)\<lparr>products := top (heap st)\<rparr>))"
      using Inr Some
      by (simp add: fetch_all_def new_array_def Let_def tot_def st2_def loop_def
          split: prod.splits option.splits)
    from fetch_pages_requests [of net tot "top (heap st)" 0 st2] obtain rs where
      both: "requests (snd loop) = requests st2 @ rs \<and>
             (fst loop = None \<longrightarrow> (\<forall>req \<in> set rs. succeeds net req))"
      unfolding loop_def ..
    have probe_ok: "succeeds net \<lparr>limit = 1, skip = None\<rparr>"
      using Inr by (simp add: succeeds_def)
    have frame: "products (snd loop) = products st2 \<and> console (snd loop) = console st2 \<and>
                 (\<forall>a. a \<noteq> top (heap st) \<longrightarrow>
                    arrays (heap (snd loop)) a = arrays (heap st2) a)"
      using fetch_pages_frame [of net tot "top (heap st)" 0 st2]
      unfolding loop_def by simp
    have reqs: "requests (snd (fetch_all net st)) =
                requests st @ (\<lparr>limit = 1, skip = None\<rparr> # rs)"
      using both by (simp add: all st2_def split: option.splits)
    have ok: "fst (fetch_all net st) = None \<longrightarrow>
              (\<forall>req \<in> set (\<lparr>limit = 1, skip = None\<rparr> # rs). succeeds net req)"
      using both probe_ok by (simp add: all split: option.splits)
    have rest: "console (snd (fetch_all net st)) = console st \<and>
      (\<forall>a. a < top (heap st) \<longrightarrow> arrays (heap (snd (fetch_all net st))) a = arrays (heap st) a) \<and>
      (fst (fetch_all net st) \<noteq> None \<longrightarrow> products (snd (fetch_all net st)) = products st)"
      using frame by (simp add: all st2_def split: option.splits)
    from reqs ok have
      "\<exists>rs. requests (snd (fetch_all net st)) = requests st @ rs \<and>
         (fst (fetch_all net st) = None \<longrightarrow> (\<forall>req \<in> set rs. succeeds net req))"
      by (intro exI [of _ "\<lparr>limit = 1, skip = None\<rparr> # rs"] conjI)
    then show ?thesis using rest by (rule conjI)
  qed
qed

lemma onMounted_unfold:
  "onMounted net st =
     (None,
      (case fst (fetch_all net st) of
         None \<Rightarrow> snd (fetch_all net st)
       | Some err \<Rightarrow> (snd (fetch_all net st))
           \<lparr>console := console (snd (fetch_all net st)) @ [err]\<rparr>)
      \<lparr>loading := False\<rparr>)"
  by (simp add: onMounted_def try_catch_finally_def console_error_def
      split: prod.splits option.splits)


lemma issued_eq:
  "requests (snd (fetch_all net st)) = requests st @ rs \<Longrightarrow> issued net st = rs"
  by (simp add: issued_def onMounted_unfold split: option.splits)

lemma onMounted_success:
  assumes probe: "net probe_request = Inr (Some init)"
    and tot: "tot = (case total' init of None \<Rightarrow> 100 | Some t \<Rightarrow> if t = 0 then 100 else t)"
    and ok: "\<forall>k. k < nat \<lceil>tot / fetch_limit\<rceil> \<longrightarrow> succeeds net (page_request k)"
  shows "fst (onMounted net st) = None"
    and "requests (snd (onMounted net st)) =
           requests st @ probe_request # map page_request [0..<nat \<lceil>tot / fetch_limit\<rceil>]"
    and "issued net st = probe_request # map page_request [0..<nat \<lceil>tot / fetch_limit\<rceil>]"
    and "products (snd (onMounted net st)) = top (heap st)"
    and "arrays (heap (snd (onMounted net st))) (products (snd (onMounted net st))) =
           concat (map (page_records net) [0..<nat \<lceil>tot / fetch_limit\<rceil>])"
    and "loading (snd (onMounted net st)) = False"
    and "console (snd (onMounted net st)) = console st"
proof -
  let ?n = "nat \<lceil>tot / fetch_limit\<rceil>"
  define st2 where "st2 = st\<lparr>loading := True,
    requests := requests st @ [\<lparr>limit = 1, skip = None\<rparr>],
    heap := (heap st)\<lparr>arrays := (arrays (heap st))(top (heap st) := []),
                       top := Suc (top (heap st))\<rparr>\<rparr>"
  have ok': "\<forall>k. 0 \<le> k \<and> k < ?n \<longrightarrow> succeeds net (page_request k)"
    using ok by simp
  have "fetch_pages net tot (top (heap st)) (fetch_limit * real 0) st2 =
        (None,
         st2\<lparr>requests := requests st2 @ map page_request [0..<?n],
             heap := (heap st2)\<lparr>arrays := (arrays (heap st2))
               (top (heap st) := arrays (heap st2) (top (heap st)) @
                  concat (map (page_records net) [0..<?n]))\<rparr>\<rparr>)"
    using ok' by (rule fetch_pages_all) simp
  then have loop: "fetch_pages net tot (top (heap st)) 0 st2 =
        (None,
         st2\<lparr>requests := requests st2 @ map page_request [0..<?n],
             heap := (heap st2)\<lparr>arrays := (arrays (heap st2))
               (top (heap st) := arrays (heap st2) (top (heap st)) @
                  concat (map (page_records net) [0..<?n]))\<rparr>\<rparr>)"
    by simp
  have all: "fetch_all net st =
        (None,
         st2\<lparr>requests := requests st2 @ map page_request [0..<?n],
             heap := (heap st2)\<lparr>arrays := (arrays (heap st2))
               (top (heap st) := arrays (heap st2) (top (heap st)) @
                  concat (map (page_records net) [0..<?n]))\<rparr>,
             products := top (heap st)\<rparr>)"
    using probe loop [unfolded st2_def] unfolding tot
    by (simp add: fetch_all_def new_array_def Let_def st2_def probe_request_def)
  have reqs: "requests (snd (fetch_all net st)) =
              requests st @ probe_request # map page_request [0..<?n]"
    by (simp add: all st2_def probe_request_def)
  show "fst (onMounted net st) = None"
    by (simp add: onMounted_unfold)
  show "requests (snd (onMounted net st)) =
           requests st @ probe_request # map page_request [0..<?n]"
    by (simp add: onMounted_unfold all st2_def probe_request_def)
  show "issued net st = probe_request # map page_request [0..<?n]"
    by (rule issued_eq [OF reqs])
  show "products (snd (onMounted net st)) = top (heap st)"
    by (simp add: onMounted_unfold all)
  show "arrays (heap (snd (onMounted net st))) (products (snd (onMounted net st))) =
           concat (map (page_records net) [0..<?n])"
    by (simp add: onMounted_unfold all st2_def)
  show "loading (snd (onMounted net st)) = False"
    by (simp add: onMounted_unfold all)
  show "console (snd (onMounted net st)) = console st"
    by (simp add: onMounted_unfold all st2_def)
qed


text \<open>
  Claim C3, for a total other than 0. When the probe reports the total \<open>T \<noteq> 0\<close> and the
  page requests succeed, the page sends the probe and then the requests with \<open>limit=30\<close>
  and \<open>skip = 0, 30, 60, \<dots>\<close> for all offsets below \<open>T\<close>, in this order, and the array of
  the products becomes the records of the pages, appended in this order, where a page
  whose body has no \<open>products\<close> field (or is \<open>null\<close>) counts as empty; nothing is
  thrown or logged. For \<open>T = 45\<close> these are the requests with \<open>skip=0\<close> and \<open>skip=30\<close>, and
  there are as many products as the two pages returned.
\<close>

theorem fetch_sequence:
  assumes "net probe_request = Inr (Some init)"
    and "total' init = Some T" and "T \<noteq> 0"
    and "\<forall>k. k < nat \<lceil>T / fetch_limit\<rceil> \<longrightarrow> succeeds net (page_request k)"
  shows "issued net st = probe_request # map page_request [0..<nat \<lceil>T / fetch_limit\<rceil>] \<and>
         arrays (heap (snd (onMounted net st))) (products (snd (onMounted net st))) =
           concat (map (page_records net) [0..<nat \<lceil>T / fetch_limit\<rceil>]) \<and>
         fst (onMounted net st) = None \<and>
         console (snd (onMounted net st)) = console st \<and>
         (T = 45 \<longrightarrow>
            issued net st =
              [\<lparr>limit = 1, skip = None\<rparr>, \<lparr>limit = 30, skip = Some 0\<rparr>,
               \<lparr>limit = 30, skip = Some 30\<rparr>] \<and>
            length (arrays (heap (snd (onMounted net st))) (products (snd (onMounted net st)))) =
              length (page_records net 0) + length (page_records net 1))"
proof -
  have tot: "T = (case total' init of None \<Rightarrow> 100 | Some t \<Rightarrow> if t = 0 then 100 else t)"
    using assms(2,3) by simp
  note run = onMounted_success [OF assms(1) tot assms(4), of st]
  have special: "T = 45 \<longrightarrow>
            issued net st =
              [\<lparr>limit = 1, skip = None\<rparr>, \<lparr>limit = 30, skip = Some 0\<rparr>,
               \<lparr>limit = 30, skip = Some 30\<rparr>] \<and>
            length (arrays (heap (snd (onMounted net st))) (products (snd (onMounted net st)))) =
              length (page_records net 0) + length (page_records net 1)"
  proof
    assume "T = 45"
    then have pages: "[0..<nat \<lceil>T / fetch_limit\<rceil>] = [0, 1]"
      by (simp add: fetch_limit_def upt_rec)
    have "issued net st =
              [\<lparr>limit = 1, skip = None\<rparr>, \<lparr>limit = 30, skip = Some 0\<rparr>,
               \<lparr>limit = 30, skip = Some 30\<rparr>]"
      unfolding run(3) pages
      by (simp add: probe_request_def page_request_def fetch_limit_def)
    moreover have
      "length (arrays (heap (snd (onMounted net st))) (products (snd (onMounted net st)))) =
         length (page_records net 0) + length (page_records net 1)"
      unfolding run(5) pages by simp
    ultimately show "issued net st =
              [\<lparr>limit = 1, skip = None\<rparr>, \<lparr>limit = 30, skip = Some 0\<rparr>,
               \<lparr>limit = 30, skip = Some 30\<rparr>] \<and>
            length (arrays (heap (snd (onMounted net st))) (products (snd (onMounted net st)))) =
              length (page_records net 0) + length (page_records net 1)"
      by (rule conjI)
  qed
  from run(3) run(5) run(1) run(7) special show ?thesis
    by (intro conjI)
qed

lemma catalogue_network_succeeds: "succeeds catalogue_network req"
  by (simp add: succeeds_def catalogue_network_def)

theorem fetch_sequence_witness:
  "catalogue_network probe_request =
     Inr (Some \<lparr>total' = Some 45, res_products = Some [item 1 ''pear'' 5, item 2 ''apple'' 7]\<rparr>) \<and>
   (45::number) \<noteq> 0 \<and>
   succeeds catalogue_network (page_request 0) \<and>
   succeeds catalogue_network (page_request 1) \<and>
   issued catalogue_network initial =
     [\<lparr>limit = 1, skip = None\<rparr>, \<lparr>limit = 30, skip = Some 0\<rparr>, \<lparr>limit = 30, skip = Some 30\<rparr>] \<and>
   arrays (heap (snd (onMounted catalogue_network initial)))
     (products (snd (onMounted catalogue_network initial))) =
     [item 1 ''pear'' 5, item 2 ''apple'' 7, item 3 ''fig'' 5]"
proof -
  let ?init = "\<lparr>total' = Some 45, res_products = Some [item 1 ''pear'' 5, item 2 ''apple'' 7]\<rparr>"
  have probe: "catalogue_network probe_request = Inr (Some ?init)"
    by (simp add: catalogue_network_def probe_request_def)
  have T: "total' ?init = Some 45" by simp
  have nz: "(45::number) \<noteq> 0" by simp
  have ok: "\<forall>k. k < nat \<lceil>45 / fetch_limit\<rceil> \<longrightarrow> succeeds catalogue_network (page_request k)"
    by (simp add: catalogue_network_succeeds)
  have records: "concat (map (page_records catalogue_network) [0..<nat \<lceil>45 / fetch_limit\<rceil>]) =
                 [item 1 ''pear'' 5, item 2 ''apple'' 7, item 3 ''fig'' 5]"
    by (simp add: fetch_limit_def upt_rec page_records_def page_request_def catalogue_network_def)
  have three: "probe_request # map page_request [0..<nat \<lceil>45 / fetch_limit\<rceil>] =
     [\<lparr>limit = 1, skip = None\<rparr>, \<lparr>limit = 30, skip = Some 0\<rparr>, \<lparr>limit = 30, skip = Some 30\<rparr>]"
    by (simp add: fetch_limit_def upt_rec page_request_def probe_request_def)
  show ?thesis
    using probe nz catalogue_network_succeeds fetch_sequence [OF probe T nz ok, of initial]
    unfolding records three by (intro conjI) simp_all
qed

text \<open>
  Claim C3 does not hold for the total 0: 0 is falsy, so \<open>initial.total || 100\<close> is 100,
  and four page requests are sent where the claim has none.
\<close>

theorem fetch_sequence_zero_total:
  "empty_catalogue_network probe_request =
     Inr (Some \<lparr>total' = Some 0, res_products = Some []\<rparr>) \<and>
   issued empty_catalogue_network initial =
     [\<lparr>limit = 1, skip = None\<rparr>, \<lparr>limit = 30, skip = Some 0\<rparr>, \<lparr>limit = 30, skip = Some 30\<rparr>,
      \<lparr>limit = 30, skip = Some 60\<rparr>, \<lparr>limit = 30, skip = Some 90\<rparr>] \<and>
   issued empty_catalogue_network initial \<noteq>
     probe_request # map page_request [0..<nat \<lceil>0 / fetch_limit\<rceil>]"
proof -
  let ?init = "\<lparr>total' = Some 0, res_products = Some []\<rparr>"
  have probe: "empty_catalogue_network probe_request = Inr (Some ?init)"
    by (simp add: empty_catalogue_network_def)
  have tot: "(100::number) = (case total' ?init of None \<Rightarrow> 100 | Some t \<Rightarrow> if t = 0 then 100 else t)"
    by simp
  have ok: "\<forall>k. k < nat \<lceil>100 / fetch_limit\<rceil> \<longrightarrow> succeeds empty_catalogue_network (page_request k)"
    by (simp add: succeeds_def empty_catalogue_network_def)
  have pages: "[0..<nat \<lceil>100 / fetch_limit\<rceil>] = [0, 1, 2, 3]"
    by (simp add: fetch_limit_def upt_rec)
  have "issued empty_catalogue_network initial =
          probe_request # map page_request [0, 1, 2, 3]"
    using onMounted_success(3) [OF probe tot ok, of initial] unfolding pages .
  with probe show ?thesis
    by (simp add: probe_request_def page_request_def fetch_limit_def)
qed


text \<open>
  Claim C4. When a request of the run fails, no exception leaves \<open>onMounted\<close>, the
  loading flag ends false, and \<open>products\<close> still holds the array it held before, with
  its contents unchanged (the empty array, when the run starts in the initial state): the
  records fetched so far were pushed to \<open>result\<close>, which is dropped. The error is logged.
\<close>

theorem onMounted_failure_atomic:
  assumes "products st < top (heap st)"
    and "\<exists>req \<in> set (issued net st). \<not> succeeds net req"
  shows "fst (onMounted net st) = None \<and>
         loading (snd (onMounted net st)) = False \<and>
         products (snd (onMounted net st)) = products st \<and>
         arrays (heap (snd (onMounted net st))) (products (snd (onMounted net st))) =
           arrays (heap st) (products st) \<and>
         (\<exists>err. console (snd (onMounted net st)) = console st @ [err])"
proof -
  note outcome = fetch_all_outcome [of net st]
  from outcome obtain rs where
    both: "requests (snd (fetch_all net st)) = requests st @ rs \<and>
           (fst (fetch_all net st) = None \<longrightarrow> (\<forall>req \<in> set rs. succeeds net req))"
    by (elim conjE exE) (rule that, rule conjI)
  from both have "issued net st = rs"
    by (intro issued_eq) simp
  with assms(2) both have "fst (fetch_all net st) \<noteq> None"
    by auto
  then obtain err where err: "fst (fetch_all net st) = Some err"
    by (cases "fst (fetch_all net st)") simp_all
  with outcome have kept: "products (snd (fetch_all net st)) = products st"
    and logged: "console (snd (fetch_all net st)) = console st"
    and same: "arrays (heap (snd (fetch_all net st))) (products st) =
               arrays (heap st) (products st)"
    using assms(1) by simp_all
  have "console (snd (onMounted net st)) = console st @ [err]"
    by (simp add: onMounted_unfold err logged)
  then have "\<exists>err. console (snd (onMounted net st)) = console st @ [err]" ..
  moreover have "products (snd (onMounted net st)) = products st"
    by (simp add: onMounted_unfold err kept)
  moreover have "arrays (heap (snd (onMounted net st))) (products (snd (onMounted net st))) =
                 arrays (heap st) (products st)"
    by (simp add: onMounted_unfold err kept same)
  moreover have "fst (onMounted net st) = None" "loading (snd (onMounted net st)) = False"
    by (simp_all add: onMounted_unfold)
  ultimately show ?thesis by simp
qed

lemma flaky_run:
  "fetch_all flaky_network initial =
     (Some FetchError,
      initial\<lparr>loading := True,
               requests := [\<lparr>limit = 1, skip = None\<rparr>, \<lparr>limit = 30, skip = Some 0\<rparr>,
                            \<lparr>limit = 30, skip = Some 30\<rparr>],
               heap := (heap initial)\<lparr>arrays := (arrays (heap initial))
                          (2 := [item 1 ''pear'' 5, item 2 ''apple'' 7]),
                        top := 3\<rparr>\<rparr>)"
  by (simp add: fetch_all_def initial_def flaky_network_def new_array_def fetch_limit_def
      fetch_pages_step fetch_pages_fail push_products_def)

theorem onMounted_failure_atomic_witness:
  "products initial < top (heap initial) \<and>
   (\<exists>req \<in> set (issued flaky_network initial). \<not> succeeds flaky_network req) \<and>
   fst (onMounted flaky_network initial) = None \<and>
   loading (snd (onMounted flaky_network initial)) = False \<and>
   arrays (heap (snd (onMounted flaky_network initial)))
     (products (snd (onMounted flaky_network initial))) = []"
proof -
  have allocated: "products initial < top (heap initial)"
    by (simp add: initial_def)
  have "issued flaky_network initial =
        [\<lparr>limit = 1, skip = None\<rparr>, \<lparr>limit = 30, skip = Some 0\<rparr>, \<lparr>limit = 30, skip = Some 30\<rparr>]"
    by (rule issued_eq) (simp add: flaky_run, simp add: initial_def)
  moreover have "\<not> succeeds flaky_network \<lparr>limit = 30, skip = Some 30\<rparr>"
    by (simp add: succeeds_def flaky_network_def)
  ultimately have failed: "\<exists>req \<in> set (issued flaky_network initial). \<not> succeeds flaky_network req"
    by simp
  have empty: "arrays (heap initial) (products initial) = []"
    by (simp add: initial_def)
  show ?thesis
    using allocated failed onMounted_failure_atomic [OF allocated failed]
    unfolding empty by (intro conjI) (elim conjE, assumption)+
qed


lemma fetch_pages_same_pages:
  assumes "\<forall>s. net' \<lparr>limit = fetch_limit, skip = Some s\<rparr> =
               net \<lparr>limit = fetch_limit, skip = Some s\<rparr>"
  shows "fetch_pages net' tot result skp st = fetch_pages net tot result skp st"
  using assms
proof (induction net tot result skp st rule: fetch_pages.induct)
  case (1 net tot result skp st)
  let ?req = "\<lparr>limit = fetch_limit, skip = Some skp\<rparr>"
  from "1.prems" have same: "net' ?req = net ?req" by simp
  show ?case
  proof (cases "skp < tot")
    case False
    then show ?thesis by (simp add: fetch_pages_stop)
  next
    case True
    show ?thesis
    proof (cases "net ?req")
      case (Inl err)
      with True same show ?thesis by (simp add: fetch_pages_fail)
    next
      case (Inr res)
      with True same "1.IH" [OF True refl refl Inr "1.prems"] show ?thesis
        by (simp add: fetch_pages_step)
    qed
  qed
qed

text \<open>
  Claim C10. A probe that reports the total 0 is treated like one that reports no total:
  the run is the same as with the \<open>total\<close> field removed from the answer to the probe,
  and (when these succeed) page requests with \<open>skip = 0, 30, 60, 90\<close> are sent.
\<close>

theorem zero_total_falls_back:
  assumes "net probe_request = Inr (Some init)"
    and "total' init = Some 0"
    and "\<forall>k. k < 4 \<longrightarrow> succeeds net (page_request k)"
  shows "onMounted net st =
           onMounted (net(probe_request := Inr (Some (init\<lparr>total' := None\<rparr>)))) st \<and>
         issued net st =
           [\<lparr>limit = 1, skip = None\<rparr>, \<lparr>limit = 30, skip = Some 0\<rparr>,
            \<lparr>limit = 30, skip = Some 30\<rparr>, \<lparr>limit = 30, skip = Some 60\<rparr>,
            \<lparr>limit = 30, skip = Some 90\<rparr>]"
proof -
  let ?net' = "net(probe_request := Inr (Some (init\<lparr>total' := None\<rparr>)))"
  have "\<forall>s. ?net' \<lparr>limit = fetch_limit, skip = Some s\<rparr> = net \<lparr>limit = fetch_limit, skip = Some s\<rparr>"
    by (simp add: probe_request_def)
  then have loop: "fetch_pages ?net' tot result skp st' = fetch_pages net tot result skp st'"
    for tot result skp st'
    by (rule fetch_pages_same_pages)
  have "fetch_all ?net' st = fetch_all net st"
    using assms(1,2) by (simp add: fetch_all_def loop probe_request_def [symmetric])
  then have same: "onMounted net st = onMounted ?net' st"
    by (simp add: onMounted_def try_catch_finally_def)
  have tot: "(100::number) = (case total' init of None \<Rightarrow> 100 | Some t \<Rightarrow> if t = 0 then 100 else t)"
    using assms(2) by simp
  have pages: "[0..<nat \<lceil>100 / fetch_limit\<rceil>] = [0, 1, 2, 3]"
    by (simp add: fetch_limit_def upt_rec)
  have count: "nat \<lceil>100 / fetch_limit\<rceil> = 4"
    by (simp add: fetch_limit_def)
  have ok: "\<forall>k. k < nat \<lceil>100 / fetch_limit\<rceil> \<longrightarrow> succeeds net (page_request k)"
    using assms(3) unfolding count .
  have "issued net st = probe_request # map page_request [0, 1, 2, 3]"
    using onMounted_success(3) [OF assms(1) tot ok, of st] unfolding pages .
  then have "issued net st =
           [\<lparr>limit = 1, skip = None\<rparr>, \<lparr>limit = 30, skip = Some 0\<rparr>,
            \<lparr>limit = 30, skip = Some 30\<rparr>, \<lparr>limit = 30, skip = Some 60\<rparr>,
            \<lparr>limit = 30, skip = Some 90\<rparr>]"
    by (simp add: probe_request_def page_request_def fetch_limit_def)
  with same show ?thesis by (rule conjI)
qed

theorem zero_total_falls_back_witness:
  "empty_catalogue_network probe_request =
     Inr (Some \<lparr>total' = Some 0, res_products = Some []\<rparr>) \<and>
   succeeds empty_catalogue_network (page_request 0) \<and>
   succeeds empty_catalogue_network (page_request 1) \<and>
   succeeds empty_catalogue_network (page_request 2) \<and>
   succeeds empty_catalogue_network (page_request 3) \<and>
   length (issued empty_catalogue_network initial) = 5 \<and>
   onMounted empty_catalogue_network initial =
     onMounted (empty_catalogue_network
        (probe_request := Inr (Some \<lparr>total' = None, res_products = Some []\<rparr>))) initial"
proof -
  let ?init = "\<lparr>total' = Some 0, res_products = Some []\<rparr>"
  have probe: "empty_catalogue_network probe_request = Inr (Some ?init)"
    by (simp add: empty_catalogue_network_def)
  have zero: "total' ?init = Some 0" by simp
  have ok: "\<forall>k. k < 4 \<longrightarrow> succeeds empty_catalogue_network (page_request k)"
    by (simp add: succeeds_def empty_catalogue_network_def)
  have each: "succeeds empty_catalogue_network req" for req
    by (simp add: succeeds_def empty_catalogue_network_def)
  show ?thesis
    using probe each zero_total_falls_back [OF probe zero ok, of initial]
    by simp
qed


section \<open>The watcher\<close>

text \<open>
  In a settled state, choosing a page sets the page and nothing else; a new search text
  gives \<open>filteredProducts\<close> a new value and the watcher sets the page to 1. A write into
  the sort object, by the direction button or the column menu, changes neither
  \<open>filteredProducts.value\<close> nor \<open>sort.value\<close>, so the watcher does not run.
\<close>

lemma settled_initial: "settled initial"
  by (simp add: settled_def initial_def)

lemma select_page_alone:
  assumes "settled st"
  shows "page (update env (select_page n) st) = n \<and> settled (update env (select_page n) st)"
  using assms
  by (simp add: update_def select_page_def recompute_def watch_def settled_def)

lemma toggleSortDirection_keeps_page:
  assumes "settled st"
  shows "page (update env toggleSortDirection st) = page st \<and>
         settled (update env toggleSortDirection st)"
  using assms
  by (simp add: update_def toggleSortDirection_def recompute_def watch_def settled_def Let_def)

lemma select_column_keeps_page:
  assumes "settled st"
  shows "page (update env (select_column name) st) = page st \<and>
         settled (update env (select_column name) st)"
  using assms
  by (simp add: update_def select_column_def recompute_def watch_def settled_def Let_def)

lemma input_search_resets_page:
  assumes "settled st" and "text \<noteq> search st"
  shows "page (update env (input_search text) st) = 1 \<and>
         settled (update env (input_search text) st)"
proof (cases "text = []")
  case True
  with assms show ?thesis
    by (simp add: update_def input_search_def recompute_def watch_def settled_def
        filteredProducts_def)
next
  case False
  with assms show ?thesis
    by (simp add: update_def input_search_def recompute_def watch_def settled_def
        filteredProducts_def new_array_def Let_def)
qed

lemma shop_fetch:
  "fetch_all shop_network initial =
     (None,
      initial\<lparr>loading := True,
               requests := [\<lparr>limit = 1, skip = None\<rparr>, \<lparr>limit = 30, skip = Some 0\<rparr>],
               heap := (heap initial)\<lparr>arrays := (arrays (heap initial))(2 := stock), top := 3\<rparr>,
               products := 2\<rparr>)"
  by (simp add: fetch_all_def initial_def shop_network_def new_array_def fetch_limit_def
      fetch_pages_step fetch_pages_stop push_products_def)

lemma shop_mounted:
  "mounted example_platform shop_network initial =
     initial\<lparr>requests := [\<lparr>limit = 1, skip = None\<rparr>, \<lparr>limit = 30, skip = Some 0\<rparr>],
              heap := (heap initial)\<lparr>arrays := (arrays (heap initial))(2 := stock), top := 3\<rparr>,
              products := 2, filteredProducts_value := 2, watched := (2, 1)\<rparr>"
  by (simp add: mounted_def update_def onMounted_unfold shop_fetch recompute_def watch_def
      filteredProducts_def) (simp add: initial_def)


text \<open>
  Claim C5 at a concrete input. Twelve products are loaded, the column \<open>price\<close> and page 2
  are selected, and the table shows the products 10 and 11. Clicking the direction button
  then reverses the sorted view, the table shows the products 1 and 0, and the page is
  still 2: the change of the sort object has not set it to 1.
\<close>

theorem sort_change_keeps_page:
  "page (update example_platform (select_page 2)
           (update example_platform (select_column ''price'')
              (mounted example_platform shop_network initial))) = 2 \<and>
   rows example_platform
     (update example_platform (select_page 2)
        (update example_platform (select_column ''price'')
           (mounted example_platform shop_network initial))) =
     [item 10 ''pear'' 10, item 11 ''pear'' 11] \<and>
   page (update example_platform toggleSortDirection
           (update example_platform (select_page 2)
              (update example_platform (select_column ''price'')
                 (mounted example_platform shop_network initial)))) = 2 \<and>
   rows example_platform
     (update example_platform toggleSortDirection
        (update example_platform (select_page 2)
           (update example_platform (select_column ''price'')
              (mounted example_platform shop_network initial)))) =
     [item 1 ''pear'' 1, item 0 ''pear'' 0]"
proof -
  define st1 where "st1 = update example_platform (select_page 2)
        (update example_platform (select_column ''price'')
           (mounted example_platform shop_network initial))"
  define st2 where "st2 = update example_platform toggleSortDirection st1"
  have st1: "st1 =
     initial\<lparr>requests := [\<lparr>limit = 1, skip = None\<rparr>, \<lparr>limit = 30, skip = Some 0\<rparr>],
              heap := (heap initial)\<lparr>arrays := (arrays (heap initial))(2 := stock), top := 3,
                 objects := (objects (heap initial))
                   (1 := \<lparr>column = ''price'', direction = ''asc''\<rparr>)\<rparr>,
              products := 2, filteredProducts_value := 2, watched := (2, 1), page := 2\<rparr>"
    unfolding st1_def shop_mounted
    by (simp add: update_def select_page_def select_column_def recompute_def watch_def
        initial_def)
  have st2: "st2 =
     initial\<lparr>requests := [\<lparr>limit = 1, skip = None\<rparr>, \<lparr>limit = 30, skip = Some 0\<rparr>],
              heap := (heap initial)\<lparr>arrays := (arrays (heap initial))(2 := stock), top := 3,
                 objects := (objects (heap initial))
                   (1 := \<lparr>column = ''price'', direction = ''desc''\<rparr>)\<rparr>,
              products := 2, filteredProducts_value := 2, watched := (2, 1), page := 2\<rparr>"
    unfolding st2_def st1
    by (simp add: update_def toggleSortDirection_def recompute_def watch_def initial_def)
  have p1: "page st1 = 2" by (simp add: st1)
  have p2: "page st2 = 2" by (simp add: st2)
  have asc: "array_sort (compare example_platform ''price'' ''asc'') stock = stock"
    by (simp add: stock_def upt_rec compare_def get_field_def item_def)
  have desc: "array_sort (compare example_platform ''price'' ''desc'') stock = rev stock"
    by (simp add: stock_def upt_rec compare_def get_field_def item_def)
  have r1: "rows example_platform st1 = [item 10 ''pear'' 10, item 11 ''pear'' 11]"
    unfolding st1
    by (simp add: rows_def sorted_view_def sortedFilteredProducts_def paginatedProducts_def
        new_array_def contents_def initial_def asc pageSize_def slice_def)
       (simp add: stock_def upt_rec item_def)
  have r2: "rows example_platform st2 = [item 1 ''pear'' 1, item 0 ''pear'' 0]"
    unfolding st2
    by (simp add: rows_def sorted_view_def sortedFilteredProducts_def paginatedProducts_def
        new_array_def contents_def initial_def desc pageSize_def slice_def)
       (simp add: stock_def upt_rec item_def)
  from p1 r1 p2 r2 show ?thesis
    unfolding st2_def st1_def by (intro conjI)
qed

end
